theory Spec2Isabelle
  imports Complex_Main "HOL-Library.Extended_Nat" "HOL-Library.AList"
begin

section \<open>Data model\<close>

text \<open>
  Nodes are JavaScript objects that the graph, the adjacency sets, the edges and every
  subgraph share by reference, and \<open>generateSubGraph\<close> mutates their \<open>distance\<close>
  field. The model keeps them in an explicit store: a reference is an index into a
  list of node objects. A reference of the program always points to an object; the
  theorems state this as \<open>closed\<close> below.

  A traversal distance is \<open>Infinity\<close> or a hop count, an \<open>enat\<close>. Identifiers are
  strings. A JavaScript \<open>Set\<close> is the list of its members in insertion order, a
  \<open>Map\<close> the association list of its entries in insertion order.
\<close>

type_synonym ref = nat

record GraphNode =
  node_id :: string
  adjacentSet :: "ref list"
  node_distance :: enat
  degree :: nat
  attributes_type :: string

record GraphEdge =
  edge_id :: string
  node0 :: ref
  node1 :: ref
  edge_distance :: enat
  edge_attributes_type :: string
  edge_attributes_strength :: nat

type_synonym heap = "GraphNode list"

record Graph =
  nodes :: "(string \<times> ref) list"
  edges :: "(string \<times> GraphEdge) list"
  nodeIndexMap :: "(string \<times> nat) list"
  nodeMap :: "(nat \<times> ref) list"
  edgeIndexMap :: "(string \<times> nat) list"
  edgeIDMap :: "(nat \<times> string) list"
  edgeNodeIndex :: "nat list"
  numberOfNodes :: nat
  numberOfEdges :: nat
  isSubGraph :: bool
  layoutRunning :: bool
  dataStructureChanged :: bool
  dataChanged :: bool

datatype error = TypeError

subsection \<open>Map and Set of the language\<close>

definition Map_has :: "('k \<times> 'v) list \<Rightarrow> 'k \<Rightarrow> bool" where
  "Map_has m k = (map_of m k \<noteq> None)"

definition Map_get :: "('k \<times> 'v) list \<Rightarrow> 'k \<Rightarrow> 'v option" where
  "Map_get m k = map_of m k"

text \<open>\<open>Map.set\<close> replaces the value of a present key in place and appends a new key.\<close>

definition Map_set :: "('k \<times> 'v) list \<Rightarrow> 'k \<Rightarrow> 'v \<Rightarrow> ('k \<times> 'v) list" where
  "Map_set m k v = AList.update k v m"

definition Map_values :: "('k \<times> 'v) list \<Rightarrow> 'v list" where
  "Map_values m = map snd m"

definition Set_size :: "'a list \<Rightarrow> nat" where
  "Set_size s = length (remdups s)"

definition Set_add :: "'a list \<Rightarrow> 'a \<Rightarrow> 'a list" where
  "Set_add s x = (if x \<in> set s then s else s @ [x])"

subsection \<open>GraphNode and GraphEdge\<close>

definition new_GraphNode :: "string \<Rightarrow> string \<Rightarrow> GraphNode" where
  "new_GraphNode i t =
     \<lparr>node_id = i, adjacentSet = [], node_distance = \<infinity>, degree = 0, attributes_type = t\<rparr>"

text \<open>\<open>addAdjacentNode\<close> counts every call in \<open>degree\<close>, also one that adds a member
  the set already has.\<close>

definition addAdjacentNode :: "heap \<Rightarrow> ref \<Rightarrow> ref \<Rightarrow> heap" where
  "addAdjacentNode h this node =
     h[this := (h ! this)\<lparr>adjacentSet := Set_add (adjacentSet (h ! this)) node,
                          degree := degree (h ! this) + 1\<rparr>]"

definition new_GraphEdge :: "string \<Rightarrow> ref \<Rightarrow> ref \<Rightarrow> string \<Rightarrow> GraphEdge" where
  "new_GraphEdge i n0 n1 t =
     \<lparr>edge_id = i, node0 = n0, node1 = n1, edge_distance = \<infinity>,
      edge_attributes_type = t, edge_attributes_strength = 1\<rparr>"

section \<open>Graph\<close>

definition new_Graph :: "bool \<Rightarrow> Graph" where
  "new_Graph sub =
     \<lparr>nodes = [], edges = [], nodeIndexMap = [], nodeMap = [], edgeIndexMap = [],
      edgeIDMap = [], edgeNodeIndex = [], numberOfNodes = 0, numberOfEdges = 0,
      isSubGraph = sub, layoutRunning = False, dataStructureChanged = False,
      dataChanged = False\<rparr>"

definition addNode :: "heap \<Rightarrow> Graph \<Rightarrow> ref \<Rightarrow> Graph" where
  "addNode h this node =
     (if \<not> Map_has (nodes this) (node_id (h ! node))
      then this\<lparr>nodes := Map_set (nodes this) (node_id (h ! node)) node,
                numberOfNodes := numberOfNodes this + 1,
                dataStructureChanged := True\<rparr>
      else this)"

definition addEdge :: "Graph \<Rightarrow> GraphEdge \<Rightarrow> Graph" where
  "addEdge this edge =
     (if \<not> Map_has (edges this) (edge_id edge)
      then this\<lparr>edges := Map_set (edges this) (edge_id edge) edge,
                numberOfEdges := numberOfEdges this + 1,
                dataStructureChanged := True\<rparr>
      else this)"

text \<open>A sequence of \<open>addNode\<close> calls on one graph, in order.\<close>

definition addNodes :: "heap \<Rightarrow> Graph \<Rightarrow> ref list \<Rightarrow> Graph" where
  "addNodes h this ns = foldl (addNode h) this ns"

subsection \<open>generateSubGraph\<close>

text \<open>
  \<open>_resetDistance\<close> is written with \<open>for (const node in this.nodes.values())\<close>. A
  \<open>for ... in\<close> statement runs over the enumerable string-keyed properties of its
  object. The object here is a Map iterator: it has no own property, and the
  properties it inherits (\<open>next\<close> and the symbol-keyed ones) are not enumerable. The
  loop variable would be a property name, a string, never a node or an edge.
\<close>

definition for_in_keys :: "'a list \<Rightarrow> string list" where
  "for_in_keys iterator = []"

definition resetDistance :: "heap \<Rightarrow> Graph \<Rightarrow> heap \<times> Graph" where
  "resetDistance h this =
     (let h1 = fold (\<lambda>node h'. h') (for_in_keys (Map_values (nodes this))) h;
          g1 = fold (\<lambda>edge g'. g') (for_in_keys (Map_values (edges this))) this
      in (h1, g1))"

definition getEdgeIDFromNodes ::
  "(string \<times> GraphEdge) list \<Rightarrow> GraphNode \<Rightarrow> GraphNode \<Rightarrow> GraphEdge option" where
  "getEdgeIDFromNodes es n1 n2 =
     (if Map_has es (node_id n1 @ ''_'' @ node_id n2)
      then Map_get es (node_id n1 @ ''_'' @ node_id n2)
      else if Map_has es (node_id n2 @ ''_'' @ node_id n1)
      then Map_get es (node_id n2 @ ''_'' @ node_id n1)
      else None)"

text \<open>The loop that picks the seed when \<open>startNodeID\<close> is undefined: the pair is
  \<open>(maxEdge, maxNodeID)\<close>.\<close>

definition defaultStartNodeID :: "heap \<Rightarrow> Graph \<Rightarrow> string option" where
  "defaultStartNodeID h this =
     snd (fold (\<lambda>(key, node) (maxEdge, maxNodeID).
                  if degree (h ! node) > maxEdge \<and> attributes_type (h ! node) = ''driver''
                  then (Set_size (adjacentSet (h ! node)), Some key)
                  else (maxEdge, maxNodeID))
               (nodes this) (0, None))"

text \<open>
  One pass of the loop over \<open>current.adjacentSet\<close>. The state is the store, the queue,
  the subgraph and \<open>edgeCount\<close>. The test \<open>item < length h\<close> is the model's only
  addition: it holds for every reference of the program and makes the function total
  on stores that are not closed.
\<close>

definition visitItem ::
  "(string \<times> GraphEdge) list \<Rightarrow> ref \<Rightarrow> ref \<Rightarrow>
   heap \<times> ref list \<times> Graph \<times> nat \<Rightarrow> heap \<times> ref list \<times> Graph \<times> nat" where
  "visitItem es current item = (\<lambda>(h, queue, sg, edgeCount).
     let (h1, queue1) =
           (if item < length h \<and> node_distance (h ! item) = \<infinity>
            then (h[item := (h ! item)\<lparr>node_distance := node_distance (h ! current) + 1\<rparr>],
                  queue @ [item])
            else (h, queue))
     in case getEdgeIDFromNodes es (h1 ! current) (h1 ! item) of
          None \<Rightarrow> (h1, queue1, sg, edgeCount)
        | Some edge \<Rightarrow>
            if \<not> Map_has (edgeIndexMap sg) (edge_id edge)
            then (h1, queue1,
                  sg\<lparr>edgeIndexMap := Map_set (edgeIndexMap sg) (edge_id edge) edgeCount,
                     edgeIDMap := Map_set (edgeIDMap sg) edgeCount (edge_id edge),
                     edges := Map_set (edges sg) (edge_id edge) edge\<rparr>,
                  edgeCount + 1)
            else (h1, queue1, sg, edgeCount))"

definition acceptNode :: "heap \<Rightarrow> Graph \<Rightarrow> ref \<Rightarrow> nat \<Rightarrow> Graph" where
  "acceptNode h sg current nodeCount =
     sg\<lparr>nodeIndexMap := Map_set (nodeIndexMap sg) (node_id (h ! current)) nodeCount,
        nodeMap := Map_set (nodeMap sg) nodeCount current,
        nodes := Map_set (nodes sg) (node_id (h ! current)) current\<rparr>"

definition unlabelled :: "heap \<Rightarrow> nat" where
  "unlabelled h = length (filter (\<lambda>n. node_distance n = \<infinity>) h)"

text \<open>The \<open>while (queue.length !== 0)\<close> loop; \<open>queue.shift()\<close> takes the head.\<close>

function bfs ::
  "nat \<Rightarrow> (string \<times> GraphEdge) list \<Rightarrow> heap \<times> ref list \<times> Graph \<times> nat \<times> nat \<Rightarrow>
   heap \<times> Graph \<times> nat \<times> nat" where
  "bfs numHops es (h, [], sg, nodeCount, edgeCount) = (h, sg, nodeCount, edgeCount)"
| "bfs numHops es (h, current # queue, sg, nodeCount, edgeCount) =
     (if node_distance (h ! current) > enat numHops then (h, sg, nodeCount, edgeCount)
      else
        (case fold (visitItem es current) (adjacentSet (h ! current))
                (h, queue, acceptNode h sg current nodeCount, edgeCount) of
           (h', queue', sg', edgeCount') \<Rightarrow>
             bfs numHops es (h', queue', sg', nodeCount + 1, edgeCount')))"
  by pat_completeness auto

lemma visitItem_measure:
  "node_distance (h ! current) \<noteq> \<infinity> \<Longrightarrow>
   visitItem es current item (h, q, sg, ec) = (h', q', sg', ec') \<Longrightarrow>
   unlabelled h' + length q' = unlabelled h + length q \<and>
   node_distance (h' ! current) = node_distance (h ! current)"
proof -
  assume fin: "node_distance (h ! current) \<noteq> \<infinity>"
    and step: "visitItem es current item (h, q, sg, ec) = (h', q', sg', ec')"
  show ?thesis
  proof (cases "item < length h \<and> node_distance (h ! item) = \<infinity>")
    case False
    with step have "h' = h" "q' = q"
      by (auto simp: visitItem_def Let_def split: option.splits if_splits)
    then show ?thesis by simp
  next
    case True
    with step have h': "h' = h[item := (h ! item)\<lparr>node_distance := node_distance (h ! current) + 1\<rparr>]"
      and q': "q' = q @ [item]"
      by (auto simp: visitItem_def Let_def split: option.splits if_splits)
    from True fin have ne: "item \<noteq> current" by auto
    obtain c where c: "node_distance (h ! current) = enat c"
      using fin by (cases "node_distance (h ! current)") auto
    have split: "h = take item h @ (h ! item) # drop (Suc item) h"
      using True by (simp add: id_take_nth_drop)
    have upd: "h' = take item h @ ((h ! item)\<lparr>node_distance := enat c + 1\<rparr>) # drop (Suc item) h"
      using True h' c by (simp add: upd_conv_take_nth_drop)
    have "unlabelled h = unlabelled (take item h) + 1 + unlabelled (drop (Suc item) h)"
      using True by (subst split) (simp add: unlabelled_def)
    moreover have "unlabelled h' = unlabelled (take item h) + unlabelled (drop (Suc item) h)"
      by (subst upd) (simp add: unlabelled_def one_enat_def)
    ultimately show ?thesis using q' h' ne by simp
  qed
qed

lemma fold_visitItem_measure:
  "node_distance (h ! current) \<noteq> \<infinity> \<Longrightarrow>
   fold (visitItem es current) items (h, q, sg, ec) = (h', q', sg', ec') \<Longrightarrow>
   unlabelled h' + length q' = unlabelled h + length q"
proof (induction items arbitrary: h q sg ec)
  case Nil
  then show ?case by simp
next
  case (Cons item items)
  obtain h1 q1 sg1 ec1 where s1: "visitItem es current item (h, q, sg, ec) = (h1, q1, sg1, ec1)"
    by (metis prod_cases4)
  from visitItem_measure [OF Cons.prems(1) s1]
  have m: "unlabelled h1 + length q1 = unlabelled h + length q"
    and d: "node_distance (h1 ! current) = node_distance (h ! current)" by simp_all
  from d Cons.prems(1) have "node_distance (h1 ! current) \<noteq> \<infinity>" by simp
  from Cons.IH [OF this] Cons.prems(2) s1 m show ?case by simp
qed

termination bfs
proof (relation "measure (\<lambda>(numHops, es, h, q, sg, nc, ec). unlabelled h + length q)")
  show "wf (measure (\<lambda>(numHops, es, h, q, sg, nc, ec). unlabelled h + length q))" by simp
next
  fix numHops :: nat and es h current queue sg nodeCount edgeCount h' y queue' ya sg' edgeCount'
  assume le: "\<not> enat numHops < node_distance (h ! current)"
    and f: "(h', y) = fold (visitItem es current) (adjacentSet (h ! current))
                  (h, queue, acceptNode h sg current nodeCount, edgeCount)"
    and y: "(queue', ya) = y" and ya: "(sg', edgeCount') = ya"
  have fin: "node_distance (h ! current) \<noteq> \<infinity>"
  proof
    assume "node_distance (h ! current) = \<infinity>"
    with le show False by simp
  qed
  from f y ya have "fold (visitItem es current) (adjacentSet (h ! current))
      (h, queue, acceptNode h sg current nodeCount, edgeCount) = (h', queue', sg', edgeCount')"
    by simp
  from fold_visitItem_measure [OF fin this]
  show "((numHops, es, h', queue', sg', nodeCount + 1, edgeCount'),
         (numHops, es, h, current # queue, sg, nodeCount, edgeCount))
        \<in> measure (\<lambda>(numHops, es, h, q, sg, nc, ec). unlabelled h + length q)"
    by simp
qed

text \<open>The loop after the search, over \<open>this.subGraph.edges.values()\<close>.\<close>

definition buildEdgeNodeIndex :: "heap \<Rightarrow> Graph \<Rightarrow> nat list" where
  "buildEdgeNodeIndex h sg =
     fold (\<lambda>edge acc.
             case (Map_get (nodeIndexMap sg) (node_id (h ! node0 edge)),
                   Map_get (nodeIndexMap sg) (node_id (h ! node1 edge))) of
               (Some node0Index, Some node1Index) \<Rightarrow> acc @ [node0Index, node1Index]
             | _ \<Rightarrow> acc)
          (Map_values (edges sg)) (edgeNodeIndex sg)"

text \<open>
  \<open>generateSubGraph({startNodeID, numHops = 3})\<close>: an argument that is undefined is
  \<open>None\<close>. \<open>this.nodes.get\<close> of an id that is absent, or of undefined, is undefined,
  and the assignment \<open>root.distance = 0\<close> then throws a TypeError. The result is the
  store after the call and the subgraph.
\<close>

definition generateSubGraph ::
  "heap \<Rightarrow> Graph \<Rightarrow> string option \<Rightarrow> nat option \<Rightarrow> error + (heap \<times> Graph)" where
  "generateSubGraph h this startNodeID numHopsArg =
     (let numHops = (case numHopsArg of None \<Rightarrow> 3 | Some k \<Rightarrow> k);
          startNodeID1 = (case startNodeID of None \<Rightarrow> defaultStartNodeID h this
                          | Some s \<Rightarrow> Some s);
          (h1, this1) = resetDistance h this;
          subGraph = new_Graph True
      in case (case startNodeID1 of None \<Rightarrow> None | Some s \<Rightarrow> Map_get (nodes this1) s) of
           None \<Rightarrow> Inl TypeError
         | Some rootNode \<Rightarrow>
             (case bfs numHops (edges this1)
                     (h1[rootNode := (h1 ! rootNode)\<lparr>node_distance := 0\<rparr>], [rootNode], subGraph, 0, 0) of
                (h2, sg, nodeCount, edgeCount) \<Rightarrow>
                  Inr (h2, sg\<lparr>edgeNodeIndex := buildEdgeNodeIndex h2 sg,
                              numberOfNodes := nodeCount,
                              numberOfEdges := edgeCount\<rparr>)))"

text \<open>The node that \<open>generateSubGraph\<close> takes as \<open>root\<close>: \<open>this.nodes.get(startNodeID)\<close>
  after the default has been filled in; \<open>None\<close> is undefined.\<close>

definition rootNode :: "heap \<Rightarrow> Graph \<Rightarrow> string option \<Rightarrow> ref option" where
  "rootNode h this startNodeID =
     (case (case startNodeID of None \<Rightarrow> defaultStartNodeID h this | Some s \<Rightarrow> Some s) of
        None \<Rightarrow> None
      | Some s \<Rightarrow> Map_get (nodes this) s)"

section \<open>Numbers and arrays of the language\<close>

text \<open>
  A number is a double: a finite value, one of the two infinities or NaN, and \<open>Num x\<close>
  is the finite double of value \<open>x\<close>. An operation on finite doubles returns the exact
  real result rounded to a double, \<open>round64\<close>: to the nearest multiple of the spacing
  of the doubles at that magnitude (53 significant bits, exponents from -1022, so the
  spacing is never below \<open>2 powr - 1074\<close> and a small result underflows to a subnormal
  or to zero), ties to the even multiple, and to an infinity when the rounded value is
  \<open>2 ^ 1024\<close> or more. \<open>Math.sqrt\<close> returns the square root rounded in the same
  way. \<open>0 / 0\<close> is NaN, \<open>x / 0\<close> is an infinity, and NaN spreads through every
  operation. \<open>undefined\<close> in an arithmetic operand converts to NaN. A
  decimal literal that is not a double, such as \<open>0.3\<close>, denotes the nearest double,
  \<open>round64 (3 / 10)\<close>.

  The two zeros of the doubles are one value, \<open>Num 0\<close>. The sign of a zero shows only
  in a division by it; the layout divides by the square root of a sum of squares, by
  the square of a distance, by \<open>numberOfNodes\<close> and by the constants 10 and 255, none
  of which is ever the negative zero, and it compares numbers with \<open>></\<close> and \<open><\<close> only.
\<close>

datatype jsnum = Num real | PosInf | NegInf | NaN

text \<open>The nearest integer, the even one of two that are equally near.\<close>

definition rne :: "real \<Rightarrow> int" where
  "rne t =
     (let f = \<lfloor>t\<rfloor>
      in if t - of_int f < 1 / 2 then f
         else if 1 / 2 < t - of_int f then f + 1
         else if even f then f else f + 1)"

definition round64 :: "real \<Rightarrow> jsnum" where
  "round64 x =
     (if x = 0 then Num 0
      else
        let e = max \<lfloor>log 2 \<bar>x\<bar>\<rfloor> (- 1022);
            q = 2 powr of_int (e - 52);
            y = of_int (rne (x / q)) * q
        in if 2 ^ 1024 \<le> \<bar>y\<bar> then (if 0 < x then PosInf else NegInf) else Num y)"

text \<open>The bounds of the rounding error of a finite result: \<open>u64\<close> relative to the exact
  value, or \<open>eta64\<close>, half the spacing of the subnormal doubles.\<close>

definition u64 :: real where
  "u64 = 2 powr (- 53)"

definition eta64 :: real where
  "eta64 = 2 powr (- 1075)"

fun jneg :: "jsnum \<Rightarrow> jsnum" where
  "jneg (Num x) = Num (- x)"
| "jneg PosInf = NegInf"
| "jneg NegInf = PosInf"
| "jneg NaN = NaN"

fun jadd :: "jsnum \<Rightarrow> jsnum \<Rightarrow> jsnum" where
  "jadd (Num x) (Num y) = round64 (x + y)"
| "jadd NaN b = NaN"
| "jadd a NaN = NaN"
| "jadd PosInf NegInf = NaN"
| "jadd NegInf PosInf = NaN"
| "jadd PosInf b = PosInf"
| "jadd a PosInf = PosInf"
| "jadd NegInf b = NegInf"
| "jadd a NegInf = NegInf"

definition jsub :: "jsnum \<Rightarrow> jsnum \<Rightarrow> jsnum" where
  "jsub a b = jadd a (jneg b)"

fun jmul :: "jsnum \<Rightarrow> jsnum \<Rightarrow> jsnum" where
  "jmul (Num x) (Num y) = round64 (x * y)"
| "jmul NaN b = NaN"
| "jmul a NaN = NaN"
| "jmul (Num x) PosInf = (if x = 0 then NaN else if 0 < x then PosInf else NegInf)"
| "jmul (Num x) NegInf = (if x = 0 then NaN else if 0 < x then NegInf else PosInf)"
| "jmul PosInf (Num y) = (if y = 0 then NaN else if 0 < y then PosInf else NegInf)"
| "jmul NegInf (Num y) = (if y = 0 then NaN else if 0 < y then NegInf else PosInf)"
| "jmul PosInf PosInf = PosInf"
| "jmul PosInf NegInf = NegInf"
| "jmul NegInf PosInf = NegInf"
| "jmul NegInf NegInf = PosInf"

fun jdiv :: "jsnum \<Rightarrow> jsnum \<Rightarrow> jsnum" where
  "jdiv (Num x) (Num y) =
     (if y \<noteq> 0 then round64 (x / y)
      else if x = 0 then NaN else if 0 < x then PosInf else NegInf)"
| "jdiv NaN b = NaN"
| "jdiv a NaN = NaN"
| "jdiv (Num x) PosInf = Num 0"
| "jdiv (Num x) NegInf = Num 0"
| "jdiv PosInf (Num y) = (if 0 \<le> y then PosInf else NegInf)"
| "jdiv NegInf (Num y) = (if 0 \<le> y then NegInf else PosInf)"
| "jdiv PosInf b = NaN"
| "jdiv NegInf b = NaN"

fun jsqrt :: "jsnum \<Rightarrow> jsnum" where
  "jsqrt (Num x) = (if 0 \<le> x then round64 (sqrt x) else NaN)"
| "jsqrt PosInf = PosInf"
| "jsqrt NegInf = NaN"
| "jsqrt NaN = NaN"

text \<open>\<open>a > b\<close>; a comparison with NaN is false.\<close>

fun jgt :: "jsnum \<Rightarrow> jsnum \<Rightarrow> bool" where
  "jgt (Num x) (Num y) = (y < x)"
| "jgt NaN b = False"
| "jgt a NaN = False"
| "jgt PosInf PosInf = False"
| "jgt PosInf b = True"
| "jgt a PosInf = False"
| "jgt NegInf b = False"
| "jgt a NegInf = True"

definition jlt :: "jsnum \<Rightarrow> jsnum \<Rightarrow> bool" where
  "jlt a b = jgt b a"

definition isFinite :: "jsnum \<Rightarrow> bool" where
  "isFinite a = (case a of Num x \<Rightarrow> True | _ \<Rightarrow> False)"

text \<open>
  An \<open>Array\<close> is a list whose elements may be holes (\<open>None\<close>, read as undefined);
  storing past the end extends it. \<open>new Array(x)\<close> has \<open>x\<close> holes when \<open>x\<close> is a
  number and is the one-element array \<open>[x]\<close> otherwise, so \<open>new Array(undefined)\<close>
  is \<open>[undefined]\<close>. An array of numbers that never has a hole is a plain list.
\<close>

definition new_Array :: "nat option \<Rightarrow> 'a option list" where
  "new_Array len = (case len of Some n \<Rightarrow> replicate n None | None \<Rightarrow> [None])"

definition Array_get :: "'a option list \<Rightarrow> nat \<Rightarrow> 'a option" where
  "Array_get xs i = (if i < length xs then xs ! i else None)"

definition Array_set :: "'a option list \<Rightarrow> nat \<Rightarrow> 'a \<Rightarrow> 'a option list" where
  "Array_set xs i v =
     (if i < length xs then xs[i := Some v]
      else xs @ replicate (i - length xs) None @ [Some v])"

definition toNumber :: "jsnum option \<Rightarrow> jsnum" where
  "toNumber v = (case v of Some x \<Rightarrow> x | None \<Rightarrow> NaN)"

definition row_get :: "jsnum list \<Rightarrow> nat \<Rightarrow> jsnum" where
  "row_get xs i = (if i < length xs then xs ! i else NaN)"

definition row_set :: "jsnum list \<Rightarrow> nat \<Rightarrow> jsnum \<Rightarrow> jsnum list" where
  "row_set xs i v =
     (if i < length xs then xs[i := v] else xs @ replicate (i - length xs) NaN @ [v])"

text \<open>A \<open>Float64Array\<close> has a fixed length and starts as zeros; a read outside it is
  undefined and a write outside it is ignored.\<close>

definition new_Float64Array :: "nat \<Rightarrow> jsnum list" where
  "new_Float64Array n = replicate n (Num 0)"

definition F64_get :: "jsnum list \<Rightarrow> nat \<Rightarrow> jsnum" where
  "F64_get xs i = (if i < length xs then xs ! i else NaN)"

definition F64_set :: "jsnum list \<Rightarrow> nat \<Rightarrow> jsnum \<Rightarrow> jsnum list" where
  "F64_set xs i v = (if i < length xs then xs[i := v] else xs)"

text \<open>
  A loop over a mutable object whose body may throw: the result is the error thrown,
  if any, and the state reached, which is the state at the throw when there is one.
\<close>

primrec foldX ::
  "('a \<Rightarrow> 's \<Rightarrow> error option \<times> 's) \<Rightarrow> 'a list \<Rightarrow> 's \<Rightarrow> error option \<times> 's" where
  "foldX f [] s = (None, s)"
| "foldX f (x # xs) s =
     (case f x s of (Some e, s') \<Rightarrow> (Some e, s') | (None, s') \<Rightarrow> foldX f xs s')"

section \<open>GraphLayoutForceDirected\<close>

text \<open>
  The layout reads its graph through \<open>this.graph\<close>; the functions below take the
  graph (and the store, for the nodes of \<open>nodeMap\<close>) as arguments. The class never
  assigns \<open>this.numberOfEdges\<close>, so the layout has no such field.
\<close>

record GraphLayoutForceDirected =
  layout_numberOfNodes :: nat
  startStep :: nat
  currentStep :: nat
  dof :: nat
  dt :: jsnum
  ka :: jsnum
  kr2 :: jsnum
  ks :: jsnum
  ks2 :: jsnum
  damping :: jsnum
  balanceLength :: jsnum
  position :: "jsnum list option list"
  color :: "jsnum list option list"
  size' :: "jsnum option list"
  mass :: "jsnum option list"
  edgePosition :: "jsnum option list"
  distance :: "jsnum list"
  direction :: "jsnum list"
  acceleration :: "jsnum list"
  velocity :: "jsnum list"
  ymean :: "jsnum list"

subsection \<open>Construction\<close>

text \<open>
  \<open>gaussRandom\<close> draws from \<open>Math.random\<close>. The samples it returns are an argument
  of the model: \<open>rnd c\<close> is the result of the call number \<open>c\<close>, and the functions that
  draw return the next call number.
\<close>

definition randn :: "jsnum \<Rightarrow> jsnum \<Rightarrow> jsnum \<Rightarrow> jsnum" where
  "randn mu std gauss = jadd mu (jmul gauss std)"

definition initializeNodePosition :: "nat \<Rightarrow> (nat \<Rightarrow> jsnum) \<Rightarrow> nat \<Rightarrow> jsnum list \<times> nat" where
  "initializeNodePosition dofs rnd c =
     fold (\<lambda>i (ret, c').
             let v = randn (Num 0) (Num 2) (rnd c')
             in (row_set ret i (if i = 2 then jmul v (Num 2) else v), c' + 1))
          [0..<dofs] ([], c)"

definition initializeNodeSize :: "GraphNode \<Rightarrow> nat \<Rightarrow> jsnum" where
  "initializeNodeSize node index = round64 (3 / 10)"

text \<open>
  A \<open>GraphNode\<close> has the properties \<open>id\<close>, \<open>adjacentSet\<close>, \<open>distance\<close>, \<open>degree\<close> and
  \<open>attributes\<close>; its category tag is \<open>attributes.type\<close>. \<open>_initializeNodeMass\<close> reads
  \<open>node.type\<close>, a property no \<open>GraphNode\<close> has: the read gives undefined.
\<close>

definition node_type :: "GraphNode \<Rightarrow> string option" where
  "node_type node = None"

definition initializeNodeMass :: "GraphNode \<Rightarrow> nat \<Rightarrow> jsnum" where
  "initializeNodeMass node index =
     (if node_type node = Some ''device'' then jmul (Num (real (degree node))) (Num 2)
      else jdiv (Num (real (degree node))) (Num 10))"

definition initializeNodeColor :: "GraphNode \<Rightarrow> nat \<Rightarrow> jsnum list" where
  "initializeNodeColor node index =
     (let color =
        (if attributes_type node = ''driver'' then [Num 228, Num 26, Num 28, Num 255]
         else if attributes_type node = ''rider'' then [Num 55, Num 126, Num 184, Num 255]
         else if attributes_type node = ''user'' then [Num 128, Num 128, Num 128, Num 255]
         else if attributes_type node = ''device'' then [Num 253, Num 191, Num 111, Num 255]
         else if attributes_type node = ''trip'' then [Num 0, Num 255, Num 0, Num 255]
         else [Num 255, Num 255, Num 255, Num 255])
      in map (\<lambda>x. jdiv x (Num 255)) color)"

definition new_GraphLayoutForceDirected ::
  "heap \<Rightarrow> Graph \<Rightarrow> nat \<Rightarrow> (nat \<Rightarrow> jsnum) \<Rightarrow> GraphLayoutForceDirected" where
  "new_GraphLayoutForceDirected h graph dofs rnd =
     (let n = numberOfNodes graph;
          (pos, col, siz, mas, c) =
            fold (\<lambda>(index, node) (pos, col, siz, mas, c).
                    let (p, c') = initializeNodePosition dofs rnd c
                    in (Array_set pos index p,
                        Array_set col index (initializeNodeColor (h ! node) index),
                        Array_set siz index (initializeNodeSize (h ! node) index),
                        Array_set mas index (initializeNodeMass (h ! node) index),
                        c'))
                 (nodeMap graph)
                 (new_Array (Some n), new_Array (Some n), new_Array (Some n),
                  new_Array (Some n), 0);
          vel = new_Float64Array (n * dofs);
          vel' = fst (fold (\<lambda>i (v, c'). (F64_set v i (randn (Num 0) (Num 1) (rnd c')), c' + 1))
                        [0..<length vel * dofs] (vel, c))
      in \<lparr>layout_numberOfNodes = n, startStep = 0, currentStep = 0, dof = dofs,
          dt = Num 10, ka = round64 (1 / 1000), kr2 = round64 (1 / 1000),
          ks = round64 (1 / 1000), ks2 = round64 (1 / 100), damping = round64 (95 / 100),
          balanceLength = Num 4,
          position = pos, color = col, size' = siz, mass = mas,
          edgePosition = new_Array None,
          distance = new_Float64Array (n * n),
          direction = new_Float64Array (n * n * dofs),
          acceleration = new_Float64Array (n * dofs),
          velocity = vel',
          ymean = new_Float64Array dofs\<rparr>)"

definition getNodePosition :: "GraphLayoutForceDirected \<Rightarrow> jsnum list option list" where
  "getNodePosition this = position this"

definition getEdgePosition :: "GraphLayoutForceDirected \<Rightarrow> jsnum option list" where
  "getEdgePosition this = edgePosition this"

subsection \<open>One step\<close>

text \<open>\<open>_L2\<close> reads \<open>a.length\<close> first and \<open>b[i]\<close> only inside the loop.\<close>

definition L2_step :: "jsnum list \<Rightarrow> jsnum list option \<Rightarrow> nat \<Rightarrow> jsnum \<Rightarrow> error option \<times> jsnum" where
  "L2_step av b i d =
     (case b of
        None \<Rightarrow> (Some TypeError, d)
      | Some bv \<Rightarrow>
          let ai = row_get av i; bi = row_get bv i
          in (None, jadd d (jmul (jsub ai bi) (jsub ai bi))))"

definition L2 :: "jsnum list option \<Rightarrow> jsnum list option \<Rightarrow> error + jsnum" where
  "L2 a b =
     (case a of
        None \<Rightarrow> Inl TypeError
      | Some av \<Rightarrow>
          (case foldX (L2_step av b) [0..<length av] (Num 0) of
             (Some e, d) \<Rightarrow> Inl e
           | (None, d) \<Rightarrow> Inr d))"

text \<open>The body of the loop over \<open>k\<close> in \<open>_xtod\<close>; the second assignment reads the slot
  the first has written.\<close>

definition xtod_k ::
  "nat \<Rightarrow> nat \<Rightarrow> jsnum list option list \<Rightarrow> nat \<Rightarrow> nat \<Rightarrow> jsnum \<Rightarrow> nat \<Rightarrow> jsnum list \<Rightarrow>
   error option \<times> jsnum list" where
  "xtod_k N dofs data i j d k dirn =
     (case Array_get data i of
        None \<Rightarrow> (Some TypeError, dirn)
      | Some di \<Rightarrow>
          (case Array_get data j of
             None \<Rightarrow> (Some TypeError, dirn)
           | Some dj \<Rightarrow>
               let dirn1 = F64_set dirn (i * N * dofs + j * dofs + k)
                             (jdiv (jsub (row_get di k) (row_get dj k)) d)
               in (None, F64_set dirn1 (j * N * dofs + i * dofs + k)
                           (jneg (F64_get dirn1 (i * N * dofs + j * dofs + k))))))"

definition xtod_j ::
  "nat \<Rightarrow> nat \<Rightarrow> jsnum list option list \<Rightarrow> nat \<Rightarrow> nat \<Rightarrow> jsnum list \<times> jsnum list \<Rightarrow>
   error option \<times> (jsnum list \<times> jsnum list)" where
  "xtod_j N dofs data i j = (\<lambda>(dst, dirn).
     case L2 (Array_get data i) (Array_get data j) of
       Inl e \<Rightarrow> (Some e, (dst, dirn))
     | Inr l2 \<Rightarrow>
         let d = jsqrt l2;
             dst1 = F64_set (F64_set dst (i * N + j) d) (j * N + i) d
         in (case foldX (xtod_k N dofs data i j d) [0..<dofs] dirn of
               (e, dirn') \<Rightarrow> (e, (dst1, dirn'))))"

definition xtod ::
  "nat \<Rightarrow> nat \<Rightarrow> jsnum list \<times> jsnum list \<Rightarrow> jsnum list option list \<Rightarrow>
   error option \<times> (jsnum list \<times> jsnum list)" where
  "xtod N dofs dd data = foldX (\<lambda>i. foldX (xtod_j N dofs data i) [i + 1..<N]) [0..<N] dd"

text \<open>The loop \<open>for (d = 0; d < dof; d++) y[d] = 0\<close>.\<close>

definition zeroFill :: "nat \<Rightarrow> jsnum list \<Rightarrow> jsnum list" where
  "zeroFill n ys = fold (\<lambda>d y. F64_set y d (Num 0)) [0..<n] ys"

text \<open>The body of the loop over \<open>j\<close> in \<open>_processNodeInteractions\<close>; \<open>gsum\<close> is
  \<open>this.ymean\<close>, a \<open>Float64Array\<close> of \<open>dof\<close> slots, so the write to \<open>gsum[2]\<close> is
  dropped when \<open>dof\<close> is 2.\<close>

definition nodeInteraction ::
  "GraphLayoutForceDirected \<Rightarrow> nat \<Rightarrow> nat \<Rightarrow> jsnum list \<Rightarrow> jsnum list" where
  "nodeInteraction this i j gsum =
     (if i = j then gsum
      else
        let N = layout_numberOfNodes this;
            dofs = dof this;
            dst = F64_get (distance this) (i * N + j);
            dst2 = jmul (F64_get (distance this) (i * N + j)) (F64_get (distance this) (i * N + j));
            distBoundary = jsub dst (jadd (toNumber (Array_get (size' this) i))
                                           (toNumber (Array_get (size' this) j)));
            F = (if jgt distBoundary (Num 0)
                 then jmul (jdiv (kr2 this) dst2) (toNumber (Array_get (mass this) j))
                 else jmul (jneg (ks2 this)) distBoundary);
            gsum1 = fold (\<lambda>d g. F64_set g d
                            (jadd (F64_get g d)
                               (jmul F (F64_get (direction this) (i * N * dofs + j * dofs + d)))))
                      [0..<dofs] gsum
        in F64_set gsum1 2
             (jadd (F64_get gsum1 2)
                (jmul (jneg (ka this)) (F64_get (direction this) (i * N * dofs + j * dofs + 2)))))"

definition processNodeInteractions ::
  "GraphLayoutForceDirected \<Rightarrow> error option \<times> GraphLayoutForceDirected" where
  "processNodeInteractions this =
     (let N = layout_numberOfNodes this; dofs = dof this
      in case xtod N dofs (distance this, direction this) (position this) of
           (e, (dst, dirn)) \<Rightarrow>
             let this1 = this\<lparr>distance := dst, direction := dirn\<rparr>
             in (case e of
                   Some err \<Rightarrow> (Some err, this1)
                 | None \<Rightarrow>
                     (case fold (\<lambda>i (gsum, acc).
                                   let gsum0 = zeroFill dofs gsum;
                                       gsum1 = fold (nodeInteraction this1 i) [0..<N] gsum0
                                   in (gsum1,
                                       fold (\<lambda>d a. F64_set a (i * dofs + d) (F64_get gsum1 d))
                                         [0..<dofs] acc))
                             [0..<N] (ymean this1, acceleration this1) of
                        (gsum, acc) \<Rightarrow> (None, this1\<lparr>ymean := gsum, acceleration := acc\<rparr>))))"

text \<open>
  \<open>_processEdgeInteractions\<close> runs \<open>i\<close> while \<open>i < edgeNodeIndex.length / 2\<close>. The buffer
  is filled two entries at a time; were its length odd, the last pass would read
  \<open>node1Idx\<close> as undefined: every index computed from it is NaN, the reads there give
  undefined and the writes are dropped, so only the slots of \<open>node0Idx\<close> change, to NaN.
\<close>

definition edgeInteraction ::
  "GraphLayoutForceDirected \<Rightarrow> nat list \<Rightarrow> nat \<Rightarrow> jsnum list \<Rightarrow> jsnum list" where
  "edgeInteraction this eni i acc =
     (let N = layout_numberOfNodes this;
          dofs = dof this;
          node0Idx = eni ! (i * 2)
      in if i * 2 + 1 < length eni
         then
           let node1Idx = eni ! (i * 2 + 1);
               dst = F64_get (distance this) (node0Idx * N + node1Idx);
               F0 = jmul (jmul (jsub (balanceLength this) dst) (ks this))
                      (toNumber (Array_get (mass this) node1Idx));
               F1 = jmul (jmul (jsub (balanceLength this) dst) (ks this))
                      (toNumber (Array_get (mass this) node0Idx))
           in fold (\<lambda>d a.
                      let a1 = F64_set a (node0Idx * dofs + d)
                                 (jadd (F64_get a (node0Idx * dofs + d))
                                    (jmul F0 (F64_get (direction this)
                                       (node0Idx * N * dofs + node1Idx * dofs + d))))
                      in F64_set a1 (node1Idx * dofs + d)
                           (jadd (F64_get a1 (node1Idx * dofs + d))
                              (jmul F1 (F64_get (direction this)
                                 (node1Idx * N * dofs + node0Idx * dofs + d)))))
                [0..<dofs] acc
         else fold (\<lambda>d a. F64_set a (node0Idx * dofs + d) NaN) [0..<dofs] acc)"

definition processEdgeInteractions ::
  "Graph \<Rightarrow> GraphLayoutForceDirected \<Rightarrow> GraphLayoutForceDirected" where
  "processEdgeInteractions graph this =
     this\<lparr>acceleration :=
            fold (edgeInteraction this (edgeNodeIndex graph))
              [0..<(length (edgeNodeIndex graph) + 1) div 2] (acceleration this)\<rparr>"

definition calculateAcceleration ::
  "Graph \<Rightarrow> GraphLayoutForceDirected \<Rightarrow> error option \<times> GraphLayoutForceDirected" where
  "calculateAcceleration graph this =
     (case processNodeInteractions this of
        (Some err, this1) \<Rightarrow> (Some err, this1)
      | (None, this1) \<Rightarrow>
          let this2 = processEdgeInteractions graph this1;
              dofs = dof this2
          in (None,
              this2\<lparr>velocity :=
                fold (\<lambda>i. fold (\<lambda>d v.
                          let v1 = F64_set v (i * dofs + d)
                                     (jadd (F64_get v (i * dofs + d))
                                        (jmul (F64_get (acceleration this2) (i * dofs + d)) (dt this2)))
                          in F64_set v1 (i * dofs + d) (jmul (F64_get v1 (i * dofs + d)) (damping this2)))
                        [0..<dofs])
                  [0..<layout_numberOfNodes this2] (velocity this2)\<rparr>))"

text \<open>The two loops of \<open>step\<close> over the positions. \<open>this.position[i][d]\<close> throws a
  TypeError when \<open>this.position[i]\<close> is a hole.\<close>

definition integrate ::
  "jsnum list \<Rightarrow> nat \<Rightarrow> nat \<Rightarrow> nat \<Rightarrow> jsnum list option list \<times> jsnum list \<Rightarrow>
   error option \<times> (jsnum list option list \<times> jsnum list)" where
  "integrate vel dofs i d = (\<lambda>(pos, ym).
     case Array_get pos i of
       None \<Rightarrow> (Some TypeError, (pos, ym))
     | Some row \<Rightarrow>
         let row1 = row_set row d (jadd (row_get row d) (F64_get vel (i * dofs + d)))
         in (None, (pos[i := Some row1], F64_set ym d (jadd (F64_get ym d) (row_get row1 d)))))"

definition recentre ::
  "jsnum list \<Rightarrow> nat \<Rightarrow> nat \<Rightarrow> nat \<Rightarrow> jsnum list option list \<Rightarrow>
   error option \<times> jsnum list option list" where
  "recentre ym N i d pos =
     (case Array_get pos i of
        None \<Rightarrow> (Some TypeError, pos)
      | Some row \<Rightarrow>
          (None, pos[i := Some (row_set row d
                   (jsub (row_get row d) (jdiv (F64_get ym d) (Num (real N)))))]))"

definition anneal :: "GraphLayoutForceDirected \<Rightarrow> GraphLayoutForceDirected" where
  "anneal this =
     (if 100 < currentStep this \<and> jlt (dt this) (Num 50)
      then this\<lparr>dt := jmul (dt this) (round64 (1005 / 1000))\<rparr> else this)"

definition step ::
  "Graph \<Rightarrow> GraphLayoutForceDirected \<Rightarrow> error option \<times> GraphLayoutForceDirected" where
  "step graph this =
     (case calculateAcceleration graph (anneal this) of
        (Some err, this1) \<Rightarrow> (Some err, this1)
      | (None, this1) \<Rightarrow>
          let N = layout_numberOfNodes this1;
              dofs = dof this1;
              ym0 = zeroFill dofs (ymean this1)
          in (case foldX (\<lambda>i. foldX (integrate (velocity this1) dofs i) [0..<dofs])
                     [0..<N] (position this1, ym0) of
                (Some err, (pos, ym)) \<Rightarrow> (Some err, this1\<lparr>position := pos, ymean := ym\<rparr>)
              | (None, (pos, ym)) \<Rightarrow>
                  (case foldX (\<lambda>i. foldX (recentre ym N i) [0..<dofs]) [0..<N] pos of
                     (Some err, pos') \<Rightarrow>
                       (Some err, this1\<lparr>position := pos', ymean := ym\<rparr>)
                   | (None, pos') \<Rightarrow>
                       (None, this1\<lparr>position := pos', ymean := ym,
                                     currentStep := currentStep this1 + 1\<rparr>))))"

text \<open>The driver calls \<open>step\<close> on the same layout object at every tick, whether or
  not an earlier call has thrown.\<close>

definition steps :: "Graph \<Rightarrow> nat \<Rightarrow> GraphLayoutForceDirected \<Rightarrow> GraphLayoutForceDirected" where
  "steps graph n this = ((\<lambda>l. snd (step graph l)) ^^ n) this"

subsection \<open>The seed the specification describes\<close>

text \<open>
  The specification's words: the node tagged \<open>driver\<close> of highest degree, the first
  seen among equals. \<open>firstOfMaxDegree\<close> picks it from a list of map entries.
\<close>

definition drivers :: "heap \<Rightarrow> Graph \<Rightarrow> (string \<times> ref) list" where
  "drivers h this = filter (\<lambda>(key, node). attributes_type (h ! node) = ''driver'') (nodes this)"

definition degreeOf :: "heap \<Rightarrow> string \<times> ref \<Rightarrow> nat" where
  "degreeOf h = (\<lambda>(key, node). degree (h ! node))"

definition firstOfMaxDegree :: "heap \<Rightarrow> (string \<times> ref) list \<Rightarrow> string option" where
  "firstOfMaxDegree h xs =
     map_option fst (find (\<lambda>x. degreeOf h x = Max (set (map (degreeOf h) xs))) xs)"

definition specSeed :: "heap \<Rightarrow> Graph \<Rightarrow> string option" where
  "specSeed h this = firstOfMaxDegree h (drivers h this)"

text \<open>The drivers that the loop of \<open>generateSubGraph\<close> can pick: it starts from
  \<open>maxEdge = 0\<close> and compares with \<open>>\<close>, so a driver of degree 0 never qualifies.\<close>

definition eligibleDrivers :: "heap \<Rightarrow> Graph \<Rightarrow> (string \<times> ref) list" where
  "eligibleDrivers h this = filter (\<lambda>x. 0 < degreeOf h x) (drivers h this)"

text \<open>The body of the seed loop, and the entries it can pick among a list of entries.\<close>

definition seedStep :: "heap \<Rightarrow> string \<times> ref \<Rightarrow> nat \<times> string option \<Rightarrow> nat \<times> string option" where
  "seedStep h = (\<lambda>(key, node) (maxEdge, maxNodeID).
                  if degree (h ! node) > maxEdge \<and> attributes_type (h ! node) = ''driver''
                  then (Set_size (adjacentSet (h ! node)), Some key)
                  else (maxEdge, maxNodeID))"

definition eligible :: "heap \<Rightarrow> (string \<times> ref) list \<Rightarrow> (string \<times> ref) list" where
  "eligible h xs =
     filter (\<lambda>x. 0 < degreeOf h x)
       (filter (\<lambda>(key, node). attributes_type (h ! node) = ''driver'') xs)"

subsection \<open>Hop distance and well-formed inputs\<close>

text \<open>
  The specification's shortest-hop distance: \<open>adjacency\<close> is the relation "b is in
  the adjacency set of a", and the distance from \<open>s\<close> to \<open>v\<close> is the length of a
  shortest chain of adjacency steps, or Infinity when there is none.
\<close>

definition adjacency :: "heap \<Rightarrow> (ref \<times> ref) set" where
  "adjacency h = {(a, b). a < length h \<and> b \<in> set (adjacentSet (h ! a))}"

definition hopDistance :: "heap \<Rightarrow> ref \<Rightarrow> ref \<Rightarrow> enat" where
  "hopDistance h s v =
     (if \<exists>n. (s, v) \<in> adjacency h ^^ n then enat (LEAST n. (s, v) \<in> adjacency h ^^ n) else \<infinity>)"

text \<open>
  What holds of every store and graph of the program: a reference points to an object
  of the store (\<open>closed\<close>), and \<open>addEdge\<close> files an edge under its own id
  (\<open>edgesWf\<close>). That two node objects never share an id is a hypothesis of the
  theorems that need it, written \<open>distinct (map node_id h)\<close>.
\<close>

definition closedHeap :: "heap \<Rightarrow> bool" where
  "closedHeap h = (\<forall>n \<in> set h. \<forall>w \<in> set (adjacentSet n). w < length h)"

definition closed :: "heap \<Rightarrow> Graph \<Rightarrow> bool" where
  "closed h this = (closedHeap h \<and> (\<forall>(key, node) \<in> set (nodes this). node < length h))"

definition edgesWf :: "(string \<times> GraphEdge) list \<Rightarrow> bool" where
  "edgesWf es = (\<forall>(k, e) \<in> set es. edge_id e = k)"

text \<open>The radius of a call: \<open>numHops\<close>, 3 when the argument is omitted.\<close>

definition hopsOf :: "nat option \<Rightarrow> nat" where
  "hopsOf numHopsArg = (case numHopsArg of None \<Rightarrow> 3 | Some k \<Rightarrow> k)"

subsection \<open>The order of a breadth-first search\<close>

text \<open>
  The order in which a breadth-first search dequeues the nodes, given without a queue:
  level by level. \<open>discover\<close> goes through an adjacency set in insertion order and
  appends to the next level every member not seen so far; \<open>expand\<close> does so for the
  nodes of a level in their order; \<open>bfsLevels h k seen level\<close> is the level followed by
  the \<open>k\<close> levels after it. \<open>dequeueOrder h r k\<close> starts from the seed \<open>r\<close> alone and
  regards as seen, besides the seed, the nodes whose distance in the store is not
  Infinity when the search starts.
\<close>

definition discover :: "ref list \<Rightarrow> ref list \<times> ref list \<Rightarrow> ref list \<times> ref list" where
  "discover items =
     fold (\<lambda>w (seen, next). if w \<in> set seen then (seen, next) else (seen @ [w], next @ [w])) items"

definition expand :: "heap \<Rightarrow> ref list \<Rightarrow> ref list \<times> ref list \<Rightarrow> ref list \<times> ref list" where
  "expand h level = fold (\<lambda>v. discover (adjacentSet (h ! v))) level"

fun bfsLevels :: "heap \<Rightarrow> nat \<Rightarrow> ref list \<Rightarrow> ref list \<Rightarrow> ref list" where
  "bfsLevels h 0 seen level = level"
| "bfsLevels h (Suc k) seen level =
     (case expand h level (seen, []) of (seen', next) \<Rightarrow> level @ bfsLevels h k seen' next)"

definition dequeueOrder :: "heap \<Rightarrow> ref \<Rightarrow> nat \<Rightarrow> ref list" where
  "dequeueOrder h r k =
     bfsLevels h k (filter (\<lambda>v. v = r \<or> node_distance (h ! v) \<noteq> \<infinity>) [0..<length h]) [r]"

subsection \<open>Notions of the proofs about the search\<close>

text \<open>
  \<open>lab h v\<close> is the distance label of \<open>v\<close> in the store \<open>h\<close>; two stores have the
  same frame when they differ in labels only. \<open>visitItem\<close> does two independent
  things, given here on their own: \<open>labelItem\<close> labels and enqueues an unlabelled
  neighbour, \<open>edgeItem\<close> files the edge found for the pair. \<open>fresh h items\<close> are the
  neighbours that one pass labels, \<open>foundEdges\<close> the edges it finds, and
  \<open>accepted sg\<close> the nodes of the subgraph in the order of their indices.
\<close>

definition lab :: "heap \<Rightarrow> ref \<Rightarrow> enat" where
  "lab h v = node_distance (h ! v)"

definition sameFrame :: "heap \<Rightarrow> heap \<Rightarrow> bool" where
  "sameFrame h h0 = (length h = length h0 \<and>
     (\<forall>v. node_id (h ! v) = node_id (h0 ! v) \<and> adjacentSet (h ! v) = adjacentSet (h0 ! v)))"

definition labelItem :: "ref \<Rightarrow> ref \<Rightarrow> heap \<times> ref list \<Rightarrow> heap \<times> ref list" where
  "labelItem current item = (\<lambda>(h, queue).
     if item < length h \<and> node_distance (h ! item) = \<infinity>
     then (h[item := (h ! item)\<lparr>node_distance := node_distance (h ! current) + 1\<rparr>], queue @ [item])
     else (h, queue))"

definition edgeItem :: "(string \<times> GraphEdge) list \<Rightarrow> GraphNode \<Rightarrow> GraphNode \<Rightarrow> Graph \<times> nat \<Rightarrow> Graph \<times> nat" where
  "edgeItem es n1 n2 = (\<lambda>(sg, edgeCount).
     case getEdgeIDFromNodes es n1 n2 of
       None \<Rightarrow> (sg, edgeCount)
     | Some edge \<Rightarrow>
         if \<not> Map_has (edgeIndexMap sg) (edge_id edge)
         then (sg\<lparr>edgeIndexMap := Map_set (edgeIndexMap sg) (edge_id edge) edgeCount,
                  edgeIDMap := Map_set (edgeIDMap sg) edgeCount (edge_id edge),
                  edges := Map_set (edges sg) (edge_id edge) edge\<rparr>,
               edgeCount + 1)
         else (sg, edgeCount))"

definition fresh :: "heap \<Rightarrow> ref list \<Rightarrow> ref set" where
  "fresh h items = {v \<in> set items. v < length h \<and> lab h v = \<infinity>}"

definition foundEdges :: "(string \<times> GraphEdge) list \<Rightarrow> heap \<Rightarrow> ref \<Rightarrow> ref list \<Rightarrow> GraphEdge set" where
  "foundEdges es h cur items =
     {e. \<exists>item \<in> set items. getEdgeIDFromNodes es (h ! cur) (h ! item) = Some e}"

definition nodeFields :: "Graph \<Rightarrow> (string \<times> nat) list \<times> (nat \<times> ref) list \<times> (string \<times> ref) list" where
  "nodeFields sg = (nodeIndexMap sg, nodeMap sg, nodes sg)"

definition accepted :: "Graph \<Rightarrow> ref list" where
  "accepted sg = map snd (nodeMap sg)"

text \<open>
  The loop invariants. \<open>edgeInv\<close> and \<open>idxInv\<close> say how the index maps are laid out;
  \<open>distInv\<close> is the invariant of breadth-first search (labels are hop distances, the
  queue is sorted by label and spans at most two levels, every neighbour of an
  accepted node is labelled); \<open>edgeSetInv\<close> says which edges have been filed.
\<close>

definition edgeInv :: "Graph \<Rightarrow> nat \<Rightarrow> bool" where
  "edgeInv sg ec =
     (map snd (edgeIndexMap sg) = [0..<ec] \<and>
      edgeIDMap sg = map (\<lambda>(k, i). (i, k)) (edgeIndexMap sg) \<and>
      map fst (edges sg) = map fst (edgeIndexMap sg) \<and>
      distinct (map fst (edgeIndexMap sg)) \<and>
      (\<forall>(k, e) \<in> set (edges sg). edge_id e = k))"

definition idxInv :: "heap \<Rightarrow> heap \<Rightarrow> ref list \<Rightarrow> Graph \<Rightarrow> nat \<Rightarrow> nat \<Rightarrow> bool" where
  "idxInv h0 h q sg nc ec =
     (sameFrame h h0 \<and>
      map fst (nodeMap sg) = [0..<nc] \<and>
      nodeIndexMap sg = map (\<lambda>(i, r). (node_id (h0 ! r), i)) (nodeMap sg) \<and>
      nodes sg = map (\<lambda>(i, r). (node_id (h0 ! r), r)) (nodeMap sg) \<and>
      distinct (accepted sg @ q) \<and>
      (\<forall>r \<in> set (accepted sg) \<union> set q. r < length h \<and> lab h r \<noteq> \<infinity>) \<and>
      edgeInv sg ec)"

definition distInv :: "heap \<Rightarrow> ref \<Rightarrow> nat \<Rightarrow> heap \<Rightarrow> ref list \<Rightarrow> Graph \<Rightarrow> bool" where
  "distInv h0 r k h q sg =
     ((\<forall>v. v < length h \<and> lab h v \<noteq> \<infinity> \<longrightarrow> lab h v = hopDistance h0 r v) \<and>
      {v. v < length h \<and> lab h v \<noteq> \<infinity>} = set (accepted sg) \<union> set q \<and>
      (\<forall>v \<in> set (accepted sg). \<forall>w \<in> set (adjacentSet (h0 ! v)). w < length h \<and> lab h w \<noteq> \<infinity>) \<and>
      sorted (map (lab h) q) \<and>
      (\<forall>w \<in> set q. lab h w \<le> lab h (hd q) + 1) \<and>
      (\<forall>v \<in> set (accepted sg). \<forall>w \<in> set q. lab h v \<le> lab h w) \<and>
      r \<in> set (accepted sg) \<union> set q \<and>
      (\<forall>v \<in> set (accepted sg). lab h v \<le> enat k))"

text \<open>\<open>ordInv\<close> relates the loop to the levels: the nodes accepted are the levels
  before the current one, \<open>prev\<close>, and the part \<open>done\<close> of the current level; the queue
  is the rest \<open>todo\<close> of the level and the part of the next level discovered so far;
  the labelled nodes are the nodes seen.\<close>

definition remaining :: "heap \<Rightarrow> nat \<Rightarrow> nat \<Rightarrow> ref list \<Rightarrow> ref list \<Rightarrow> ref list" where
  "remaining h k c seen level = (if c \<le> k then bfsLevels h (k - c) seen level else [])"

definition ordInv :: "heap \<Rightarrow> ref \<Rightarrow> nat \<Rightarrow> heap \<Rightarrow> ref list \<Rightarrow> Graph \<Rightarrow> bool" where
  "ordInv h0 r k h q sg =
     (\<exists>c seen prev done todo seen' next.
        expand h0 done (seen, []) = (seen', next) \<and>
        (\<forall>v<length h. (lab h v \<noteq> \<infinity>) = (v \<in> set seen')) \<and>
        q = todo @ next \<and>
        (\<forall>w \<in> set next. lab h w = enat (Suc c)) \<and>
        accepted sg = prev @ done \<and>
        (\<forall>w \<in> set todo. lab h w = enat c) \<and>
        prev @ remaining h0 k c seen (done @ todo) = dequeueOrder h0 r k \<and>
        (k < c \<longrightarrow> done = []) \<and>
        (todo = [] \<longrightarrow> q = []))"

definition edgeSetInv :: "(string \<times> GraphEdge) list \<Rightarrow> heap \<Rightarrow> Graph \<Rightarrow> bool" where
  "edgeSetInv es h0 sg =
     ((\<forall>(k, e) \<in> set (edges sg). map_of es k = Some e) \<and>
      set (map snd (edges sg)) =
        (\<Union>v \<in> set (accepted sg). foundEdges es h0 v (adjacentSet (h0 ! v))))"

definition fullInv ::
  "(string \<times> GraphEdge) list \<Rightarrow> heap \<Rightarrow> ref \<Rightarrow> nat \<Rightarrow> heap \<Rightarrow> ref list \<Rightarrow> Graph \<Rightarrow> nat \<Rightarrow> nat \<Rightarrow> bool" where
  "fullInv es h0 r k h q sg nc ec =
     (idxInv h0 h q sg nc ec \<and> distInv h0 r k h q sg \<and> edgeSetInv es h0 sg)"

subsection \<open>Notions of the proofs about the layout\<close>

text \<open>
  \<open>jmat N dofs P\<close> is the position array of \<open>N\<close> rows of \<open>dofs\<close> numbers each, the
  number \<open>P i d\<close> at row \<open>i\<close> and axis \<open>d\<close>, and \<open>jvec n Y\<close> the buffer of the \<open>n\<close>
  numbers \<open>Y d\<close>; the numbers are doubles or NaN or an infinity. \<open>sqDist\<close> is the sum
  \<open>_L2\<close> accumulates for two rows, with the rounding of every operation, \<open>unitDir\<close>
  what \<open>_xtod\<close> computes for a pair and an axis, and \<open>slot\<close> the index of the direction
  buffer the pair and axis have.
\<close>

definition jmat :: "nat \<Rightarrow> nat \<Rightarrow> (nat \<Rightarrow> nat \<Rightarrow> jsnum) \<Rightarrow> jsnum list option list" where
  "jmat N dofs P = map (\<lambda>i. Some (map (P i) [0..<dofs])) [0..<N]"

definition jvec :: "nat \<Rightarrow> (nat \<Rightarrow> jsnum) \<Rightarrow> jsnum list" where
  "jvec n Y = map Y [0..<n]"

definition sqDist :: "nat \<Rightarrow> (nat \<Rightarrow> nat \<Rightarrow> jsnum) \<Rightarrow> nat \<Rightarrow> nat \<Rightarrow> jsnum" where
  "sqDist dofs P i j =
     fold (\<lambda>d s. jadd s (jmul (jsub (P i d) (P j d)) (jsub (P i d) (P j d)))) [0..<dofs] (Num 0)"

definition unitDir :: "nat \<Rightarrow> (nat \<Rightarrow> nat \<Rightarrow> jsnum) \<Rightarrow> nat \<Rightarrow> nat \<Rightarrow> nat \<Rightarrow> jsnum" where
  "unitDir dofs P i j k = jdiv (jsub (P i k) (P j k)) (jsqrt (sqDist dofs P i j))"

definition pairDir :: "nat \<Rightarrow> (nat \<Rightarrow> nat \<Rightarrow> jsnum) \<Rightarrow> nat \<Rightarrow> nat \<Rightarrow> nat \<Rightarrow> jsnum" where
  "pairDir dofs P a b k =
     (if a < b then unitDir dofs P a b k else jneg (unitDir dofs P b a k))"

definition slot :: "nat \<Rightarrow> nat \<Rightarrow> nat \<Rightarrow> nat \<Rightarrow> nat \<Rightarrow> nat" where
  "slot N dofs a b k = a * N * dofs + b * dofs + k"

text \<open>\<open>written W V dirn dirn'\<close>: the buffer \<open>dirn'\<close> is \<open>dirn\<close> with the slots selected by
  \<open>W\<close> set to the values \<open>V\<close>.\<close>

definition written ::
  "nat \<Rightarrow> nat \<Rightarrow> (nat \<Rightarrow> nat \<Rightarrow> nat \<Rightarrow> bool) \<Rightarrow> (nat \<Rightarrow> nat \<Rightarrow> nat \<Rightarrow> jsnum) \<Rightarrow>
   jsnum list \<Rightarrow> jsnum list \<Rightarrow> bool" where
  "written N dofs W V dirn dirn' =
     (length dirn' = length dirn \<and>
      (\<forall>a<N. \<forall>b<N. \<forall>k<dofs.
         dirn' ! slot N dofs a b k = (if W a b k then V a b k else dirn ! slot N dofs a b k)))"

text \<open>\<open>jsum f n\<close> is the running sum \<open>((0 + f 0) + f 1) + \<dots>\<close> of \<open>n\<close> numbers, each
  addition rounded, as the loop \<open>ymean[d] += position[i][d]\<close> forms it. \<open>integrateJ\<close>
  and \<open>recentreJ\<close> are the two loops of \<open>step\<close> on the coordinates \<open>P\<close> and the buffer
  \<open>Y\<close>.\<close>

definition jsum :: "(nat \<Rightarrow> jsnum) \<Rightarrow> nat \<Rightarrow> jsnum" where
  "jsum f n = fold (\<lambda>i s. jadd s (f i)) [0..<n] (Num 0)"

definition integrateJ ::
  "jsnum list \<Rightarrow> nat \<Rightarrow> nat \<Rightarrow> nat \<Rightarrow> (nat \<Rightarrow> nat \<Rightarrow> jsnum) \<times> (nat \<Rightarrow> jsnum) \<Rightarrow>
   (nat \<Rightarrow> nat \<Rightarrow> jsnum) \<times> (nat \<Rightarrow> jsnum)" where
  "integrateJ vel dofs i d = (\<lambda>(P, Y).
     (P(i := (P i)(d := jadd (P i d) (F64_get vel (i * dofs + d)))),
      Y(d := jadd (Y d) (jadd (P i d) (F64_get vel (i * dofs + d))))))"

definition recentreJ ::
  "(nat \<Rightarrow> jsnum) \<Rightarrow> nat \<Rightarrow> nat \<Rightarrow> nat \<Rightarrow> (nat \<Rightarrow> nat \<Rightarrow> jsnum) \<Rightarrow> (nat \<Rightarrow> nat \<Rightarrow> jsnum)" where
  "recentreJ Y N i d P = P(i := (P i)(d := jsub (P i d) (jdiv (Y d) (Num (real N)))))"

text \<open>A position array is \<open>shaped\<close> when it has \<open>N\<close> rows, none a hole, of \<open>dofs\<close>
  entries each, and \<open>finMat\<close> when moreover every entry is a finite double.
  \<open>coordAt pos i d\<close> reads \<open>pos[i][d]\<close>, NaN where there is no such entry.\<close>

definition shaped :: "nat \<Rightarrow> nat \<Rightarrow> jsnum list option list \<Rightarrow> bool" where
  "shaped N dofs pos =
     (length pos = N \<and>
      list_all (\<lambda>r. case r of Some row \<Rightarrow> length row = dofs | None \<Rightarrow> False) pos)"

definition finMat :: "nat \<Rightarrow> nat \<Rightarrow> jsnum list option list \<Rightarrow> bool" where
  "finMat N dofs pos =
     (length pos = N \<and>
      list_all (\<lambda>r. case r of Some row \<Rightarrow> length row = dofs \<and> list_all isFinite row
                     | None \<Rightarrow> False) pos)"

definition coordAt :: "jsnum list option list \<Rightarrow> nat \<Rightarrow> nat \<Rightarrow> jsnum" where
  "coordAt pos i d = (case Array_get pos i of Some row \<Rightarrow> row_get row d | None \<Rightarrow> NaN)"

text \<open>\<open>moved l l' i d\<close> is the sum \<open>position[i][d] + velocity[i * dof + d]\<close> that \<open>step\<close>
  stores first, from the position before the step and the velocity after it.
  \<open>valueOf\<close> is the real number a finite double is; \<open>axisTotal l d\<close> is the exact sum
  over the nodes of the coordinates on axis \<open>d\<close>, and their mean is this sum divided
  by \<open>numberOfNodes\<close>. \<open>axisSum\<close> and \<open>axisMean\<close> are the sum and the mean as a loop of
  the program would compute them, in doubles.\<close>

definition valueOf :: "jsnum \<Rightarrow> real" where
  "valueOf a = (case a of Num x \<Rightarrow> x | _ \<Rightarrow> 0)"

definition moved ::
  "GraphLayoutForceDirected \<Rightarrow> GraphLayoutForceDirected \<Rightarrow> nat \<Rightarrow> nat \<Rightarrow> jsnum" where
  "moved l l' i d = jadd (coordAt (position l) i d) (F64_get (velocity l') (i * dof l + d))"

definition axisTotal :: "GraphLayoutForceDirected \<Rightarrow> nat \<Rightarrow> real" where
  "axisTotal l d = (\<Sum>i<layout_numberOfNodes l. valueOf (coordAt (position l) i d))"

definition axisSum :: "GraphLayoutForceDirected \<Rightarrow> nat \<Rightarrow> jsnum" where
  "axisSum this d = jsum (\<lambda>i. coordAt (position this) i d) (layout_numberOfNodes this)"

definition axisMean :: "GraphLayoutForceDirected \<Rightarrow> nat \<Rightarrow> jsnum" where
  "axisMean this d = jdiv (axisSum this d) (Num (real (layout_numberOfNodes this)))"

text \<open>\<open>magn k a\<close>: the number \<open>a\<close> is a finite double of absolute value at most
  \<open>2 ^ k\<close>.\<close>

definition magn :: "nat \<Rightarrow> jsnum \<Rightarrow> bool" where
  "magn k a = (\<exists>x. a = Num x \<and> \<bar>x\<bar> \<le> 2 ^ k)"

section \<open>Example graphs\<close>

text \<open>The specification's example: nodes A (driver), B and C (riders), edges A-B and
  A-C, each adjacency added once on both sides.\<close>

definition example_heap :: heap where
  "example_heap =
     addAdjacentNode (addAdjacentNode (addAdjacentNode (addAdjacentNode
       [new_GraphNode ''A'' ''driver'', new_GraphNode ''B'' ''rider'', new_GraphNode ''C'' ''rider'']
       0 1) 1 0) 0 2) 2 0"

definition example_graph :: Graph where
  "example_graph =
     addEdge (addEdge (addNodes example_heap (new_Graph False) [0, 1, 2])
       (new_GraphEdge ''A_B'' 0 1 ''link'')) (new_GraphEdge ''A_C'' 0 2 ''link'')"

text \<open>The store that a first call \<open>generateSubGraph({startNodeID: 'A', numHops: 1})\<close>
  leaves behind.\<close>

definition stale_heap :: heap where
  "stale_heap =
     (case generateSubGraph example_heap example_graph (Some ''A'') (Some 1) of
        Inr (h, sg) \<Rightarrow> h
      | Inl e \<Rightarrow> example_heap)"

text \<open>The subgraph that the first call on the example returns.\<close>

definition example_subgraph :: Graph where
  "example_subgraph =
     (case generateSubGraph example_heap example_graph (Some ''A'') (Some 1) of
        Inr (h, sg) \<Rightarrow> sg
      | Inl e \<Rightarrow> new_Graph True)"

text \<open>A path X - Y - Z with its two edges.\<close>

definition path_heap :: heap where
  "path_heap =
     addAdjacentNode (addAdjacentNode (addAdjacentNode (addAdjacentNode
       [new_GraphNode ''X'' ''driver'', new_GraphNode ''Y'' ''rider'', new_GraphNode ''Z'' ''rider'']
       0 1) 1 0) 1 2) 2 1"

definition path_graph :: Graph where
  "path_graph =
     addEdge (addEdge (addNodes path_heap (new_Graph False) [0, 1, 2])
       (new_GraphEdge ''X_Y'' 0 1 ''link'')) (new_GraphEdge ''Y_Z'' 1 2 ''link'')"

text \<open>A device with three users as neighbours.\<close>

definition device_heap :: heap where
  "device_heap =
     addAdjacentNode (addAdjacentNode (addAdjacentNode
       [new_GraphNode ''P'' ''device'', new_GraphNode ''U1'' ''user'',
        new_GraphNode ''U2'' ''user'', new_GraphNode ''U3'' ''user''] 0 1) 0 2) 0 3"

text \<open>A graph whose only node is a driver without neighbours.\<close>

definition lone_heap :: heap where
  "lone_heap = [new_GraphNode ''D'' ''driver'']"

definition lone_graph :: Graph where
  "lone_graph = addNodes lone_heap (new_Graph False) [0]"

text \<open>Two node objects with the same id B, both in the adjacency set of A; \<open>addNode\<close>
  refuses the second.\<close>

definition twin_heap :: heap where
  "twin_heap =
     addAdjacentNode (addAdjacentNode
       [new_GraphNode ''A'' ''driver'', new_GraphNode ''B'' ''rider'', new_GraphNode ''B'' ''rider'']
       0 1) 0 2"

definition twin_graph :: Graph where
  "twin_graph = addNodes twin_heap (new_Graph False) [0, 1, 2]"

subsection \<open>Example layouts\<close>

text \<open>A layout of one node in the plane, and a layout of two nodes in the plane at the
  positions \<open>p\<close> and \<open>q\<close>, with the constants, sizes and buffers of the constructor.\<close>

definition lone_layout :: GraphLayoutForceDirected where
  "lone_layout =
     \<lparr>layout_numberOfNodes = 1, startStep = 0, currentStep = 0, dof = 2,
      dt = Num 10, ka = round64 (1 / 1000), kr2 = round64 (1 / 1000), ks = round64 (1 / 1000),
      ks2 = round64 (1 / 100), damping = round64 (95 / 100), balanceLength = Num 4,
      position = [Some [Num 5, Num 7]],
      color = [Some [Num 1, Num 1, Num 1, Num 1]],
      size' = [Some (round64 (3 / 10))],
      mass = [Some (Num 0)],
      edgePosition = [None],
      distance = new_Float64Array 1,
      direction = new_Float64Array 2,
      acceleration = new_Float64Array 2,
      velocity = [Num 1, Num 2],
      ymean = new_Float64Array 2\<rparr>"

definition pair_layout :: "jsnum list \<Rightarrow> jsnum list \<Rightarrow> GraphLayoutForceDirected" where
  "pair_layout p q =
     \<lparr>layout_numberOfNodes = 2, startStep = 0, currentStep = 0, dof = 2,
      dt = Num 10, ka = round64 (1 / 1000), kr2 = round64 (1 / 1000), ks = round64 (1 / 1000),
      ks2 = round64 (1 / 100), damping = round64 (95 / 100), balanceLength = Num 4,
      position = [Some p, Some q],
      color = [Some [Num 1, Num 1, Num 1, Num 1], Some [Num 1, Num 1, Num 1, Num 1]],
      size' = [Some (round64 (3 / 10)), Some (round64 (3 / 10))],
      mass = [Some (round64 (1 / 10)), Some (round64 (1 / 10))],
      edgePosition = [None],
      distance = new_Float64Array 4,
      direction = new_Float64Array 8,
      acceleration = new_Float64Array 4,
      velocity = [Num 1, Num 0, Num 0, Num 1],
      ymean = new_Float64Array 2\<rparr>"

section \<open>addNode\<close>

lemma Map_has_Map_set: "Map_has (Map_set m k v) k' = (k' = k \<or> Map_has m k')"
  by (simp add: Map_has_def Map_set_def update_conv')

lemma Map_has_keys: "Map_has m k = (k \<in> fst ` set m)"
  by (simp add: Map_has_def map_of_eq_None_iff)

lemma addNode_keys:
  "fst ` set (nodes (addNode h g n)) = insert (node_id (h ! n)) (fst ` set (nodes g))"
  by (auto simp: addNode_def Map_set_def dom_update Map_has_keys)

lemma addNode_count:
  "numberOfNodes g = card (fst ` set (nodes g)) \<Longrightarrow>
   numberOfNodes (addNode h g n) = card (fst ` set (nodes (addNode h g n)))"
  by (auto simp: addNode_def Map_set_def dom_update Map_has_keys)

lemma addNodes_inv:
  "numberOfNodes g = card (fst ` set (nodes g)) \<Longrightarrow>
   numberOfNodes (addNodes h g ns) = card (fst ` set (nodes (addNodes h g ns))) \<and>
   fst ` set (nodes (addNodes h g ns)) = fst ` set (nodes g) \<union> (\<lambda>n. node_id (h ! n)) ` set ns"
proof (induction ns arbitrary: g)
  case Nil
  then show ?case by (simp add: addNodes_def)
next
  case (Cons n ns)
  have "numberOfNodes (addNode h g n) = card (fst ` set (nodes (addNode h g n)))"
    using Cons.prems by (rule addNode_count)
  from Cons.IH [OF this] show ?case
    by (auto simp: addNodes_def addNode_keys)
qed

text \<open>
  C8. After any sequence of \<open>addNode\<close> calls on a new graph, the node count is the
  number of distinct ids among the nodes added, and the node map holds exactly those
  ids; on any graph, \<open>addNode\<close> with an id that is already present returns the graph
  unchanged, so the count and the node stored under that id stay as they were.
\<close>

theorem addNode_distinct_ids_count:
  "numberOfNodes (addNodes h (new_Graph sub) ns) = card ((\<lambda>n. node_id (h ! n)) ` set ns) \<and>
   fst ` set (nodes (addNodes h (new_Graph sub) ns)) = (\<lambda>n. node_id (h ! n)) ` set ns \<and>
   (\<forall>g n. Map_has (nodes g) (node_id (h ! n)) \<longrightarrow>
      addNode h g n = g \<and> numberOfNodes (addNode h g n) = numberOfNodes g \<and>
      Map_get (nodes (addNode h g n)) (node_id (h ! n)) = Map_get (nodes g) (node_id (h ! n)))"
proof -
  have "numberOfNodes (new_Graph sub) = card (fst ` set (nodes (new_Graph sub)))"
    by (simp add: new_Graph_def)
  from addNodes_inv [OF this, of h ns] show ?thesis
    by (simp add: new_Graph_def addNode_def)
qed

theorem addNode_distinct_ids_count_witness:
  "Map_has (nodes (addNodes example_heap (new_Graph False) [0, 1]))
     (node_id (example_heap ! 0)) \<and>
   addNode example_heap (addNodes example_heap (new_Graph False) [0, 1]) 0 =
     addNodes example_heap (new_Graph False) [0, 1] \<and>
   numberOfNodes (addNodes example_heap (new_Graph False) [0, 1, 0]) = 2"
proof -
  have has: "Map_has (nodes (addNodes example_heap (new_Graph False) [0, 1]))
     (node_id (example_heap ! 0))"
    by code_simp
  have card: "card ((\<lambda>n. node_id (example_heap ! n)) ` set [0, 1, 0]) = 2"
    by code_simp
  from addNode_distinct_ids_count [of example_heap False "[0, 1, 0]"]
  have all: "\<forall>g n. Map_has (nodes g) (node_id (example_heap ! n)) \<longrightarrow> addNode example_heap g n = g"
    and count: "numberOfNodes (addNodes example_heap (new_Graph False) [0, 1, 0]) =
      card ((\<lambda>n. node_id (example_heap ! n)) ` set [0, 1, 0])"
    by blast+
  from all has have "addNode example_heap (addNodes example_heap (new_Graph False) [0, 1]) 0 =
     addNodes example_heap (new_Graph False) [0, 1]"
    by blast
  with has count card show ?thesis by simp
qed

section \<open>The distance reset\<close>

text \<open>
  C4. The claim is that every call first sets the distance of every node and edge to
  Infinity. \<open>_resetDistance\<close> changes nothing. On the example, after a first call from
  A with one hop the distances are 0, 1, 1; the reset of a second call leaves them, and
  the second call, from B with one hop, finds A already labelled and returns B alone.
\<close>

theorem resetDistance_keeps_stale_distances:
  "map node_distance stale_heap = [0, 1, 1] \<and>
   map node_distance (fst (resetDistance stale_heap example_graph)) = [0, 1, 1] \<and>
   (\<exists>h sg. generateSubGraph stale_heap example_graph (Some ''B'') (Some 1) = Inr (h, sg) \<and>
      nodes sg = [(''B'', 1)] \<and> map node_distance h = [0, 0, 1])"
  by (simp add: stale_heap_def generateSubGraph_def example_heap_def example_graph_def
      addAdjacentNode_def new_GraphNode_def Set_add_def addEdge_def addNodes_def addNode_def
      new_Graph_def new_GraphEdge_def Map_has_def Map_get_def Map_set_def resetDistance_def
      for_in_keys_def visitItem_def acceptNode_def getEdgeIDFromNodes_def
      buildEdgeNodeIndex_def Map_values_def one_enat_def zero_enat_def)

lemma resetDistance_id: "resetDistance h g = (h, g)"
  by (simp add: resetDistance_def for_in_keys_def)


section \<open>The default seed\<close>

lemma find_append: "find P (xs @ ys) = (case find P xs of None \<Rightarrow> find P ys | Some x \<Rightarrow> Some x)"
  by (induction xs) auto

lemma find_max_Some:
  assumes "xs \<noteq> []"
  shows "\<exists>y. find (\<lambda>x. degreeOf h x = Max (set (map (degreeOf h) xs))) xs = Some y"
proof -
  have "Max (set (map (degreeOf h) xs)) \<in> set (map (degreeOf h) xs)"
    using assms by (intro Max_in) auto
  then obtain x where "x \<in> set xs" "degreeOf h x = Max (set (map (degreeOf h) xs))"
    by auto
  then have "find (\<lambda>x. degreeOf h x = Max (set (map (degreeOf h) xs))) xs \<noteq> None"
    unfolding find_None_iff by blast
  then show ?thesis by auto
qed

lemma seed_fold:
  assumes "\<forall>(key, node) \<in> set xs. attributes_type (h ! node) = ''driver'' \<longrightarrow>
             degree (h ! node) = Set_size (adjacentSet (h ! node))"
  shows "fold (seedStep h) xs (0, None) =
           ((if eligible h xs = [] then 0 else Max (set (map (degreeOf h) (eligible h xs)))),
            firstOfMaxDegree h (eligible h xs))"
  using assms
proof (induction xs rule: rev_induct)
  case Nil
  then show ?case by (simp add: eligible_def firstOfMaxDegree_def)
next
  case (snoc x xs)
  obtain key node where x: "x = (key, node)" by (cases x)
  let ?E = "eligible h xs"
  let ?M = "if ?E = [] then 0 else Max (set (map (degreeOf h) ?E))"
  have IH: "fold (seedStep h) xs (0, None) = (?M, firstOfMaxDegree h ?E)"
    using snoc by simp
  have le: "\<forall>y \<in> set ?E. degreeOf h y \<le> ?M"
    by (auto intro!: Max_ge)
  have dx: "degreeOf h x = degree (h ! node)" by (simp add: degreeOf_def x)
  show ?case
  proof (cases "degree (h ! node) > ?M \<and> attributes_type (h ! node) = ''driver''")
    case True
    then have el: "eligible h (xs @ [x]) = ?E @ [x]"
      by (auto simp: eligible_def x degreeOf_def)
    have size: "Set_size (adjacentSet (h ! node)) = degree (h ! node)"
      using snoc.prems True by (simp add: x)
    have mx: "Max (set (map (degreeOf h) (?E @ [x]))) = degree (h ! node)"
    proof (rule Max_eqI)
      show "finite (set (map (degreeOf h) (?E @ [x])))" by simp
      show "degree (h ! node) \<in> set (map (degreeOf h) (?E @ [x]))" by (simp add: dx)
      fix y assume "y \<in> set (map (degreeOf h) (?E @ [x]))"
      then show "y \<le> degree (h ! node)" using le True dx by auto
    qed
    have none: "find (\<lambda>y. degreeOf h y = degree (h ! node)) ?E = None"
      using le True by (auto simp: find_None_iff)
    have "firstOfMaxDegree h (?E @ [x]) = Some key"
      unfolding firstOfMaxDegree_def mx
      using none by (simp add: find_append dx) (simp add: x)
    then show ?thesis using IH True el mx size
      by (simp add: seedStep_def x)
  next
    case False
    have step: "fold (seedStep h) (xs @ [x]) (0, None) = (?M, firstOfMaxDegree h ?E)"
      using IH False by (auto simp: seedStep_def x)
    show ?thesis
    proof (cases "attributes_type (h ! node) = ''driver'' \<and> 0 < degree (h ! node)")
      case False
      then have "eligible h (xs @ [x]) = ?E" by (auto simp: eligible_def x degreeOf_def)
      with step show ?thesis by simp
    next
      case True
      with False have dle: "degree (h ! node) \<le> ?M" by auto
      with True have ne: "?E \<noteq> []" by (auto split: if_splits)
      from True have el: "eligible h (xs @ [x]) = ?E @ [x]" by (auto simp: eligible_def x degreeOf_def)
      have mx: "Max (set (map (degreeOf h) (?E @ [x]))) = Max (set (map (degreeOf h) ?E))"
      proof (rule Max_eqI)
        show "finite (set (map (degreeOf h) (?E @ [x])))" by simp
        show "Max (set (map (degreeOf h) ?E)) \<in> set (map (degreeOf h) (?E @ [x]))"
          using ne Max_in [of "set (map (degreeOf h) ?E)"] by auto
        fix y assume "y \<in> set (map (degreeOf h) (?E @ [x]))"
        then show "y \<le> Max (set (map (degreeOf h) ?E))" using le dle ne dx
          by auto
      qed
      obtain y where y: "find (\<lambda>x. degreeOf h x = Max (set (map (degreeOf h) ?E))) ?E = Some y"
        using find_max_Some [OF ne] by blast
      have "firstOfMaxDegree h (?E @ [x]) = firstOfMaxDegree h ?E"
        unfolding firstOfMaxDegree_def mx
        using y by (simp add: find_append)
      with step el mx ne show ?thesis by simp
    qed
  qed
qed

lemma defaultStartNodeID_fold: "defaultStartNodeID h g = snd (fold (seedStep h) (nodes g) (0, None))"
  by (simp add: defaultStartNodeID_def seedStep_def)

lemma eligible_eligibleDrivers: "eligible h (nodes g) = eligibleDrivers h g"
  by (simp add: eligible_def eligibleDrivers_def drivers_def)

text \<open>
  C3 as the specification states it fails: in a graph whose only node is a driver
  without neighbours, that node is the driver of maximal degree, yet the loop picks
  nothing and the call throws.
\<close>

theorem specSeed_isolated_driver_counterexample:
  "specSeed lone_heap lone_graph = Some ''D'' \<and>
   defaultStartNodeID lone_heap lone_graph = None \<and>
   generateSubGraph lone_heap lone_graph None None = Inl TypeError"
  by code_simp

text \<open>
  C3, amended. When the degree of every driver equals the size of its adjacency set,
  the seed picked for an omitted \<open>startNodeID\<close> is the first-seen entry of maximal
  degree among the drivers of positive degree; it is the seed of the specification
  when every driver has positive degree. When no driver of positive degree exists, in
  particular when the graph has no driver, the call throws a TypeError (the code has
  no SeedNotFoundError).
\<close>

theorem defaultStartNodeID_first_driver_of_max_degree:
  assumes "\<forall>(key, node) \<in> set (nodes this). attributes_type (h ! node) = ''driver'' \<longrightarrow>
             degree (h ! node) = Set_size (adjacentSet (h ! node))"
  shows "defaultStartNodeID h this = firstOfMaxDegree h (eligibleDrivers h this) \<and>
         (eligibleDrivers h this = [] \<longrightarrow> generateSubGraph h this None numHops = Inl TypeError) \<and>
         ((\<forall>x \<in> set (drivers h this). 0 < degreeOf h x) \<longrightarrow>
            defaultStartNodeID h this = specSeed h this)"
proof -
  have seed: "defaultStartNodeID h this = firstOfMaxDegree h (eligibleDrivers h this)"
    using seed_fold [OF assms]
    by (simp add: defaultStartNodeID_fold eligible_eligibleDrivers)
  have err: "generateSubGraph h this None numHops = Inl TypeError"
    if "eligibleDrivers h this = []"
    using that seed
    by (simp add: generateSubGraph_def firstOfMaxDegree_def resetDistance_def for_in_keys_def)
  have spec: "defaultStartNodeID h this = specSeed h this"
    if "\<forall>x \<in> set (drivers h this). 0 < degreeOf h x"
  proof -
    from that have "eligibleDrivers h this = drivers h this"
      by (simp add: eligibleDrivers_def)
    with seed show ?thesis by (simp add: specSeed_def)
  qed
  from seed err spec show ?thesis by blast
qed

theorem defaultStartNodeID_first_driver_of_max_degree_witness:
  "defaultStartNodeID example_heap example_graph = Some ''A'' \<and>
   specSeed example_heap example_graph = Some ''A'' \<and>
   eligibleDrivers lone_heap lone_graph = [] \<and>
   generateSubGraph lone_heap lone_graph None None = Inl TypeError"
proof -
  have h1: "\<forall>(key, node) \<in> set (nodes example_graph).
      attributes_type (example_heap ! node) = ''driver'' \<longrightarrow>
      degree (example_heap ! node) = Set_size (adjacentSet (example_heap ! node))"
    by code_simp
  have h2: "\<forall>(key, node) \<in> set (nodes lone_graph).
      attributes_type (lone_heap ! node) = ''driver'' \<longrightarrow>
      degree (lone_heap ! node) = Set_size (adjacentSet (lone_heap ! node))"
    by code_simp
  have pos: "\<forall>x \<in> set (drivers example_heap example_graph). 0 < degreeOf example_heap x"
    by code_simp
  have e: "eligibleDrivers lone_heap lone_graph = []" by code_simp
  have f: "firstOfMaxDegree example_heap (eligibleDrivers example_heap example_graph) = Some ''A''"
    by code_simp
  from defaultStartNodeID_first_driver_of_max_degree [OF h1, of None] pos f
  have "defaultStartNodeID example_heap example_graph = Some ''A''"
    "specSeed example_heap example_graph = Some ''A''" by metis+
  moreover from defaultStartNodeID_first_driver_of_max_degree [OF h2, of None] e
  have "generateSubGraph lone_heap lone_graph None None = Inl TypeError" by blast
  ultimately show ?thesis using e by simp
qed

section \<open>Edges of the subgraph: where the claims fail\<close>

text \<open>
  C2 as stated fails: from A with zero hops in the example graph, whose distances are
  all Infinity, the subgraph has the node A alone but both edges of A.
\<close>

theorem zero_hops_edge_count_counterexample:
  "map node_distance example_heap = [\<infinity>, \<infinity>, \<infinity>] \<and>
   (\<exists>h sg. generateSubGraph example_heap example_graph (Some ''A'') (Some 0) = Inr (h, sg) \<and>
      nodes sg = [(''A'', 0)] \<and> numberOfEdges sg = 2 \<and>
      map fst (edges sg) = [''A_B'', ''A_C''] \<and> edgeNodeIndex sg = [])"
  by (simp add: generateSubGraph_def example_heap_def example_graph_def
      addAdjacentNode_def new_GraphNode_def Set_add_def addEdge_def addNodes_def addNode_def
      new_Graph_def new_GraphEdge_def Map_has_def Map_get_def Map_set_def resetDistance_def
      for_in_keys_def visitItem_def acceptNode_def getEdgeIDFromNodes_def
      buildEdgeNodeIndex_def Map_values_def one_enat_def zero_enat_def)

text \<open>
  C1 as stated fails: from X with one hop on the path X - Y - Z, the subgraph has the
  nodes X and Y and the edge Y_Z, whose endpoint Z is outside the node set.
\<close>

theorem subgraph_edges_outside_node_set_counterexample:
  "map node_distance path_heap = [\<infinity>, \<infinity>, \<infinity>] \<and>
   (\<exists>h sg. generateSubGraph path_heap path_graph (Some ''X'') (Some 1) = Inr (h, sg) \<and>
      nodes sg = [(''X'', 0), (''Y'', 1)] \<and>
      map (\<lambda>(key, edge). (key, node0 edge, node1 edge)) (edges sg) =
        [(''X_Y'', 0, 1), (''Y_Z'', 1, 2)])"
  by (simp add: generateSubGraph_def path_heap_def path_graph_def
      addAdjacentNode_def new_GraphNode_def Set_add_def addEdge_def addNodes_def addNode_def
      new_Graph_def new_GraphEdge_def Map_has_def Map_get_def Map_set_def resetDistance_def
      for_in_keys_def visitItem_def acceptNode_def getEdgeIDFromNodes_def
      buildEdgeNodeIndex_def Map_values_def one_enat_def zero_enat_def)

section \<open>Breadth-first search\<close>

subsection \<open>One pass over an adjacency set\<close>

text \<open>The pass splits into its labelling part and its edge part, and the labelling
  part has a closed form.\<close>

lemma getEdgeIDFromNodes_ids:
  "node_id a = node_id a' \<Longrightarrow> node_id b = node_id b' \<Longrightarrow>
   getEdgeIDFromNodes es a b = getEdgeIDFromNodes es a' b'"
  by (simp add: getEdgeIDFromNodes_def)

lemma sameFrame_refl: "sameFrame h h"
  by (simp add: sameFrame_def)

lemma sameFrame_update:
  "sameFrame h h0 \<Longrightarrow> sameFrame (h[v := (h ! v)\<lparr>node_distance := d\<rparr>]) h0"
proof (cases "v < length h")
  case True
  then show "sameFrame h h0 \<Longrightarrow> ?thesis"
    by (auto simp: sameFrame_def nth_list_update)
next
  case False
  then have "h[v := (h ! v)\<lparr>node_distance := d\<rparr>] = h" by (simp add: list_update_beyond)
  then show "sameFrame h h0 \<Longrightarrow> ?thesis" by simp
qed

lemma labelItem_frame:
  "sameFrame h h0 \<Longrightarrow> labelItem cur item (h, q) = (h', q') \<Longrightarrow> sameFrame h' h0"
  by (auto simp: labelItem_def sameFrame_update split: if_splits)

lemma visitItem_split:
  assumes "sameFrame h h0"
  shows "visitItem es cur item (h, q, sg, ec) =
     (case labelItem cur item (h, q) of (h', q') \<Rightarrow>
        case edgeItem es (h0 ! cur) (h0 ! item) (sg, ec) of (sg', ec') \<Rightarrow> (h', q', sg', ec'))"
proof -
  obtain h' q' where l: "labelItem cur item (h, q) = (h', q')" by (cases "labelItem cur item (h, q)")
  from labelItem_frame [OF assms l] have "sameFrame h' h0" .
  then have "getEdgeIDFromNodes es (h' ! cur) (h' ! item) = getEdgeIDFromNodes es (h0 ! cur) (h0 ! item)"
    by (intro getEdgeIDFromNodes_ids) (simp_all add: sameFrame_def)
  moreover have "(if item < length h \<and> node_distance (h ! item) = \<infinity>
            then (h[item := (h ! item)\<lparr>node_distance := node_distance (h ! cur) + 1\<rparr>], q @ [item])
            else (h, q)) = (h', q')"
    using l by (simp add: labelItem_def)
  ultimately show ?thesis
    by (simp add: visitItem_def l edgeItem_def split: option.splits)
qed

lemma fold_visitItem_split:
  assumes "sameFrame h h0"
  shows "fold (visitItem es cur) items (h, q, sg, ec) =
     (case fold (labelItem cur) items (h, q) of (h', q') \<Rightarrow>
        case fold (\<lambda>item. edgeItem es (h0 ! cur) (h0 ! item)) items (sg, ec) of
          (sg', ec') \<Rightarrow> (h', q', sg', ec'))"
  using assms
proof (induction items arbitrary: h q sg ec)
  case Nil
  then show ?case by simp
next
  case (Cons item items)
  obtain h1 q1 where l: "labelItem cur item (h, q) = (h1, q1)" by (cases "labelItem cur item (h, q)")
  obtain sg1 ec1 where e: "edgeItem es (h0 ! cur) (h0 ! item) (sg, ec) = (sg1, ec1)"
    by (cases "edgeItem es (h0 ! cur) (h0 ! item) (sg, ec)")
  have f: "sameFrame h1 h0" using labelItem_frame [OF Cons.prems l] .
  show ?case
    by (simp add: visitItem_split [OF Cons.prems] l e Cons.IH [OF f])
qed

lemma fold_labelItem:
  assumes "lab h cur = enat c"
    and "fold (labelItem cur) items (h, q) = (h', q')"
  shows "sameFrame h' h \<and>
         (\<forall>v. lab h' v = (if v \<in> fresh h items then enat (Suc c) else lab h v)) \<and>
         (\<exists>ns. q' = q @ ns \<and> set ns = fresh h items \<and> distinct ns)"
  using assms
proof (induction items arbitrary: h q)
  case Nil
  then show ?case by (simp add: fresh_def sameFrame_refl)
next
  case (Cons item items)
  show ?case
  proof (cases "item < length h \<and> node_distance (h ! item) = \<infinity>")
    case False
    then have l: "labelItem cur item (h, q) = (h, q)" by (simp add: labelItem_def)
    have fr: "fresh h (item # items) = fresh h items"
      using False by (auto simp: fresh_def lab_def)
    from Cons.IH [OF Cons.prems(1)] Cons.prems(2) l show ?thesis
      by (simp add: fr)
  next
    case True
    define h1 where "h1 = h[item := (h ! item)\<lparr>node_distance := node_distance (h ! cur) + 1\<rparr>]"
    from True have l: "labelItem cur item (h, q) = (h1, q @ [item])"
      by (simp add: labelItem_def h1_def)
    from True Cons.prems(1) have ne: "item \<noteq> cur" by (auto simp: lab_def)
    have lab1: "lab h1 v = (if v = item then enat (Suc c) else lab h v)" for v
      using True Cons.prems(1)
      by (auto simp: h1_def lab_def nth_list_update eSuc_enat [symmetric] plus_1_eSuc)
    have c1: "lab h1 cur = enat c" using lab1 [of cur] ne Cons.prems(1) by simp
    have len: "length h1 = length h" by (simp add: h1_def)
    from True have T: "item < length h" "lab h item = \<infinity>" by (simp_all add: lab_def)
    have fr: "fresh h (item # items) = insert item (fresh h1 items)"
      using T by (auto simp: fresh_def lab1 len)
    have nin: "item \<notin> fresh h1 items" by (simp add: fresh_def lab1)
    have f1: "sameFrame h1 h" unfolding h1_def by (rule sameFrame_update [OF sameFrame_refl])
    from Cons.prems(2) l have "fold (labelItem cur) items (h1, q @ [item]) = (h', q')" by simp
    from Cons.IH [OF c1 this]
    obtain ns where IH: "sameFrame h' h1"
      "\<forall>v. lab h' v = (if v \<in> fresh h1 items then enat (Suc c) else lab h1 v)"
      "q' = (q @ [item]) @ ns" "set ns = fresh h1 items" "distinct ns" by blast
    have "sameFrame h' h" using IH(1) f1 by (simp add: sameFrame_def)
    moreover have "\<forall>v. lab h' v = (if v \<in> fresh h (item # items) then enat (Suc c) else lab h v)"
      using IH(2) lab1 fr by auto
    moreover have "q' = q @ (item # ns) \<and> set (item # ns) = fresh h (item # items) \<and> distinct (item # ns)"
      using IH(3,4,5) fr nin by simp
    ultimately show ?thesis by blast
  qed
qed

text \<open>The edge part keeps the edge index maps dense and files exactly the edges found.\<close>

lemma Map_set_new: "\<not> Map_has m k \<Longrightarrow> Map_set m k v = m @ [(k, v)]"
  unfolding Map_has_def Map_set_def
  by (induction m) (auto split: if_splits)

lemma Map_has_fst: "Map_has m k = (k \<in> set (map fst m))"
  by (simp add: Map_has_def map_of_eq_None_iff)

lemma getEdge_Some:
  "getEdgeIDFromNodes es a b = Some e \<Longrightarrow> \<exists>k. map_of es k = Some e"
  by (auto simp: getEdgeIDFromNodes_def Map_get_def split: if_splits)

lemma edgeItem_inv:
  assumes "edgeInv sg ec" and "edgeItem es a b (sg, ec) = (sg', ec')"
  shows "edgeInv sg' ec' \<and> nodeFields sg' = nodeFields sg \<and>
         (edgesWf es \<longrightarrow> (\<forall>(k, e) \<in> set (edges sg). map_of es k = Some e) \<longrightarrow>
            (\<forall>(k, e) \<in> set (edges sg'). map_of es k = Some e) \<and>
            set (map snd (edges sg')) =
              set (map snd (edges sg)) \<union> {e. getEdgeIDFromNodes es a b = Some e})"
proof (cases "getEdgeIDFromNodes es a b")
  case None
  with assms show ?thesis by (simp add: edgeItem_def)
next
  case (Some e)
  show ?thesis
  proof (cases "Map_has (edgeIndexMap sg) (edge_id e)")
    case True
    with Some assms(2) have eq: "sg' = sg" "ec' = ec" by (simp_all add: edgeItem_def)
    have "e \<in> set (map snd (edges sg))"
      if wf: "edgesWf es" and sub: "\<forall>(k, e) \<in> set (edges sg). map_of es k = Some e"
    proof -
      from True assms(1) have "edge_id e \<in> set (map fst (edges sg))"
        by (simp add: Map_has_fst edgeInv_def)
      then obtain e' where e': "(edge_id e, e') \<in> set (edges sg)" by auto
      with sub have m: "map_of es (edge_id e) = Some e'" by auto
      from getEdge_Some [OF Some] obtain k where k: "map_of es k = Some e" by blast
      then have "(k, e) \<in> set es" by (rule map_of_SomeD)
      with wf have "edge_id e = k" by (auto simp: edgesWf_def)
      with k m have "e' = e" by simp
      with e' show ?thesis by force
    qed
    with eq Some assms(1) show ?thesis by auto
  next
    case False
    have k1: "\<not> Map_has (edges sg) (edge_id e)"
      using False assms(1) by (simp add: Map_has_fst edgeInv_def)
    have k2: "\<not> Map_has (edgeIDMap sg) ec"
    proof -
      have "map fst (edgeIDMap sg) = [0..<ec]"
        using assms(1) by (simp add: edgeInv_def map_idI case_prod_beta comp_def)
      then show ?thesis by (simp add: Map_has_fst)
    qed
    from False Some assms(2)
    have sg': "sg' = sg\<lparr>edgeIndexMap := Map_set (edgeIndexMap sg) (edge_id e) ec,
                  edgeIDMap := Map_set (edgeIDMap sg) ec (edge_id e),
                  edges := Map_set (edges sg) (edge_id e) e\<rparr>" and ec': "ec' = ec + 1"
      by (simp_all add: edgeItem_def)
    have f: "edgeIndexMap sg' = edgeIndexMap sg @ [(edge_id e, ec)]"
      "edgeIDMap sg' = edgeIDMap sg @ [(ec, edge_id e)]"
      "edges sg' = edges sg @ [(edge_id e, e)]"
      by (simp_all add: sg' Map_set_new False k1 k2)
    have inv: "edgeInv sg' ec'"
      using assms(1) False by (simp add: edgeInv_def f ec' Map_has_fst)
    have nf: "nodeFields sg' = nodeFields sg" by (simp add: nodeFields_def sg')
    have "(\<forall>(k, e) \<in> set (edges sg'). map_of es k = Some e)"
      if wf: "edgesWf es" and sub: "\<forall>(k, e) \<in> set (edges sg). map_of es k = Some e"
    proof -
      from getEdge_Some [OF Some] obtain k where k: "map_of es k = Some e" by blast
      then have "(k, e) \<in> set es" by (rule map_of_SomeD)
      with wf have "edge_id e = k" by (auto simp: edgesWf_def)
      with k sub show ?thesis by (auto simp: f)
    qed
    moreover have "set (map snd (edges sg')) =
              set (map snd (edges sg)) \<union> {e. getEdgeIDFromNodes es a b = Some e}"
      using Some by (auto simp: f)
    ultimately show ?thesis using inv nf by blast
  qed
qed

lemma fold_edgeItem_inv:
  assumes "edgeInv sg ec"
    and "fold (\<lambda>item. edgeItem es (h0 ! cur) (h0 ! item)) items (sg, ec) = (sg', ec')"
  shows "edgeInv sg' ec' \<and> nodeFields sg' = nodeFields sg \<and>
         (edgesWf es \<longrightarrow> (\<forall>(k, e) \<in> set (edges sg). map_of es k = Some e) \<longrightarrow>
            (\<forall>(k, e) \<in> set (edges sg'). map_of es k = Some e) \<and>
            set (map snd (edges sg')) = set (map snd (edges sg)) \<union> foundEdges es h0 cur items)"
  using assms
proof (induction items arbitrary: sg ec)
  case Nil
  then show ?case by (simp add: foundEdges_def)
next
  case (Cons item items)
  obtain sg1 ec1 where e: "edgeItem es (h0 ! cur) (h0 ! item) (sg, ec) = (sg1, ec1)"
    by (cases "edgeItem es (h0 ! cur) (h0 ! item) (sg, ec)")
  note step = edgeItem_inv [OF Cons.prems(1) e]
  from step have inv1: "edgeInv sg1 ec1" by blast
  from Cons.prems(2) e
  have "fold (\<lambda>item. edgeItem es (h0 ! cur) (h0 ! item)) items (sg1, ec1) = (sg', ec')" by simp
  note IH = Cons.IH [OF inv1 this]
  have fe: "foundEdges es h0 cur (item # items) =
      {e. getEdgeIDFromNodes es (h0 ! cur) (h0 ! item) = Some e} \<union> foundEdges es h0 cur items"
    by (auto simp: foundEdges_def)
  from step IH show ?case unfolding fe by (simp add: Un_assoc)
qed

subsection \<open>Hop distance\<close>

lemma hop_le_iff: "hopDistance h s v \<le> enat k \<longleftrightarrow> (\<exists>n\<le>k. (s, v) \<in> adjacency h ^^ n)"
proof
  assume le: "hopDistance h s v \<le> enat k"
  then have ex: "\<exists>n. (s, v) \<in> adjacency h ^^ n"
    by (auto simp: hopDistance_def split: if_splits)
  then have "(s, v) \<in> adjacency h ^^ (LEAST n. (s, v) \<in> adjacency h ^^ n)"
    by (auto intro: LeastI)
  moreover from le ex have "(LEAST n. (s, v) \<in> adjacency h ^^ n) \<le> k"
    by (simp add: hopDistance_def)
  ultimately show "\<exists>n\<le>k. (s, v) \<in> adjacency h ^^ n" by blast
next
  assume "\<exists>n\<le>k. (s, v) \<in> adjacency h ^^ n"
  then obtain n where n: "n \<le> k" "(s, v) \<in> adjacency h ^^ n" by blast
  then have "(LEAST n. (s, v) \<in> adjacency h ^^ n) \<le> n" by (auto intro: Least_le)
  with n show "hopDistance h s v \<le> enat k" by (auto simp: hopDistance_def)
qed

lemma hop_path: "(s, v) \<in> adjacency h ^^ n \<Longrightarrow> hopDistance h s v \<le> enat n"
  by (auto simp: hop_le_iff)

lemma hop_self: "hopDistance h s s = 0"
proof -
  have "hopDistance h s s \<le> enat 0" by (rule hop_path) simp
  then show ?thesis by (cases "hopDistance h s s") (simp_all add: zero_enat_def)
qed

lemma hop_zero_iff: "hopDistance h s v = 0 \<longleftrightarrow> v = s"
proof
  assume "hopDistance h s v = 0"
  then have "hopDistance h s v \<le> enat 0" by (simp add: zero_enat_def)
  then show "v = s" by (auto simp: hop_le_iff)
qed (simp add: hop_self)

lemma hop_edge:
  assumes "(a, b) \<in> adjacency h"
  shows "hopDistance h s b \<le> hopDistance h s a + 1"
proof (cases "hopDistance h s a")
  case (enat n)
  then have "hopDistance h s a \<le> enat n" by simp
  then obtain m where m: "m \<le> n" "(s, a) \<in> adjacency h ^^ m" by (auto simp: hop_le_iff)
  with assms have "(s, b) \<in> adjacency h ^^ Suc m" by auto
  then have "hopDistance h s b \<le> enat (Suc m)" by (rule hop_path)
  also have "\<dots> \<le> enat (Suc n)" using m by simp
  finally show ?thesis using enat by (simp add: one_enat_def)
next
  case infinity
  then show ?thesis by simp
qed

lemma hop_pred:
  assumes "hopDistance h s v = enat (Suc n)"
  shows "\<exists>p. (p, v) \<in> adjacency h \<and> hopDistance h s p = enat n"
proof -
  from assms have "hopDistance h s v \<le> enat (Suc n)" by simp
  then obtain m where m: "m \<le> Suc n" "(s, v) \<in> adjacency h ^^ m" by (auto simp: hop_le_iff)
  have "m = Suc n"
  proof (rule ccontr)
    assume "m \<noteq> Suc n"
    with m have "m \<le> n" by simp
    with m(2) have "hopDistance h s v \<le> enat n" by (auto simp: hop_le_iff)
    with assms show False by simp
  qed
  with m obtain p where p: "(s, p) \<in> adjacency h ^^ n" "(p, v) \<in> adjacency h" by auto
  then have le: "hopDistance h s p \<le> enat n" by (auto intro: hop_path)
  have "hopDistance h s p = enat n"
  proof (rule ccontr)
    assume ne: "hopDistance h s p \<noteq> enat n"
    with le obtain j where j: "hopDistance h s p = enat j" "j < n"
      by (cases "hopDistance h s p") auto
    from hop_edge [OF p(2), of s] j have "hopDistance h s v \<le> enat (Suc j)"
      by (simp add: one_enat_def)
    with assms j show False by simp
  qed
  with p show ?thesis by blast
qed

lemma within_zero: "{v. hopDistance h r v \<le> enat 0} = {r}"
proof -
  have "hopDistance h r v \<le> enat 0 \<longleftrightarrow> v = r" for v
    by (auto simp: hop_le_iff)
  then show ?thesis by auto
qed

lemma enat_between: "(x::enat) \<le> enat (Suc c) \<Longrightarrow> \<not> x \<le> enat c \<Longrightarrow> x = enat (Suc c)"
  by (cases x) auto

subsection \<open>The loop and its invariants\<close>

text \<open>An invariant of one pass of the \<open>while\<close> loop holds of the state in which the
  loop ends, where the queue is empty or its head is beyond the radius.\<close>

lemma bfs_invariant:
  assumes "I h q sg nc ec"
    and res: "bfs k es (h, q, sg, nc, ec) = (hf, sgf, ncf, ecf)"
    and step: "\<And>h cur q sg nc ec h' q' sg' ec'.
      I h (cur # q) sg nc ec \<Longrightarrow> \<not> enat k < lab h cur \<Longrightarrow>
      fold (visitItem es cur) (adjacentSet (h ! cur)) (h, q, acceptNode h sg cur nc, ec)
        = (h', q', sg', ec') \<Longrightarrow>
      I h' q' sg' (nc + 1) ec'"
  shows "\<exists>qf. I hf qf sgf ncf ecf \<and> (qf = [] \<or> enat k < lab hf (hd qf))"
  using assms
proof (induction k es "(h, q, sg, nc, ec)" arbitrary: h q sg nc ec rule: bfs.induct)
  case (1 numHops es h sg nodeCount edgeCount)
  then show ?case by auto
next
  case (2 numHops es h current queue sg nodeCount edgeCount)
  show ?case
  proof (cases "enat numHops < node_distance (h ! current)")
    case True
    with "2.prems" have "hf = h" "sgf = sg" "ncf = nodeCount" "ecf = edgeCount" by simp_all
    with "2.prems"(1) True show ?thesis
      by (intro exI [of _ "current # queue"]) (simp add: lab_def)
  next
    case False
    obtain h' q' sg' ec' where f: "fold (visitItem es current) (adjacentSet (h ! current))
        (h, queue, acceptNode h sg current nodeCount, edgeCount) = (h', q', sg', ec')"
      by (metis prod_cases4)
    from False have nl: "\<not> enat numHops < lab h current" by (simp add: lab_def)
    have I': "I h' q' sg' (nodeCount + 1) ec'"
      by (rule "2.prems"(3) [OF "2.prems"(1) nl f])
    from "2.prems"(2) False f
    have r: "bfs numHops es (h', q', sg', nodeCount + 1, ec') = (hf, sgf, ncf, ecf)" by simp
    show ?thesis
      by (rule "2.hyps" [OF False f [symmetric] refl refl I' r "2.prems"(3)])
  qed
qed

lemma edgeInv_cong:
  "edgeIndexMap sg' = edgeIndexMap sg \<Longrightarrow> edgeIDMap sg' = edgeIDMap sg \<Longrightarrow>
   edges sg' = edges sg \<Longrightarrow> edgeInv sg' ec = edgeInv sg ec"
  by (simp add: edgeInv_def)

lemma finite_lab: "\<not> enat k < lab h cur \<Longrightarrow> \<exists>c. lab h cur = enat c \<and> c \<le> k"
  by (cases "lab h cur") auto

lemma visit_step:
  assumes ids: "distinct (map node_id h0)"
    and inv: "idxInv h0 h (cur # q) sg nc ec"
    and le: "\<not> enat k < lab h cur"
    and f: "fold (visitItem es cur) (adjacentSet (h ! cur)) (h, q, acceptNode h sg cur nc, ec)
        = (h', q', sg', ec')"
  shows "\<exists>c ns. lab h cur = enat c \<and> c \<le> k \<and> sameFrame h' h0 \<and> length h' = length h \<and>
      (\<forall>v. lab h' v = (if v \<in> fresh h (adjacentSet (h0 ! cur)) then enat (Suc c) else lab h v)) \<and>
      q' = q @ ns \<and> set ns = fresh h (adjacentSet (h0 ! cur)) \<and> distinct ns \<and>
      nodeIndexMap sg' = nodeIndexMap sg @ [(node_id (h0 ! cur), nc)] \<and>
      nodeMap sg' = nodeMap sg @ [(nc, cur)] \<and>
      nodes sg' = nodes sg @ [(node_id (h0 ! cur), cur)] \<and>
      edgeInv sg' ec' \<and>
      (edgesWf es \<longrightarrow> (\<forall>(k, e) \<in> set (edges sg). map_of es k = Some e) \<longrightarrow>
         (\<forall>(k, e) \<in> set (edges sg'). map_of es k = Some e) \<and>
         set (map snd (edges sg')) =
           set (map snd (edges sg)) \<union> foundEdges es h0 cur (adjacentSet (h0 ! cur)))"
proof -
  from inv have frame: "sameFrame h h0" by (simp add: idxInv_def)
  from finite_lab [OF le] obtain c where c: "lab h cur = enat c" "c \<le> k" by blast
  have items: "adjacentSet (h ! cur) = adjacentSet (h0 ! cur)"
    using frame by (simp add: sameFrame_def)
  let ?items = "adjacentSet (h0 ! cur)"
  let ?sg1 = "acceptNode h sg cur nc"
  obtain hl ql where l: "fold (labelItem cur) ?items (h, q) = (hl, ql)"
    by (cases "fold (labelItem cur) ?items (h, q)")
  obtain sge ece where e: "fold (\<lambda>item. edgeItem es (h0 ! cur) (h0 ! item)) ?items (?sg1, ec) = (sge, ece)"
    by (cases "fold (\<lambda>item. edgeItem es (h0 ! cur) (h0 ! item)) ?items (?sg1, ec)")
  from f fold_visitItem_split [OF frame, of es cur ?items q ?sg1 ec] l e
  have eq: "h' = hl" "q' = ql" "sg' = sge" "ec' = ece" by (simp_all add: items)
  from fold_labelItem [OF c(1) l] eq obtain ns where
    fr': "sameFrame h' h" and
    labs: "\<forall>v. lab h' v = (if v \<in> fresh h ?items then enat (Suc c) else lab h v)" and
    q': "q' = q @ ns" and ns: "set ns = fresh h ?items" "distinct ns"
    by blast
  have id_cur: "node_id (h ! cur) = node_id (h0 ! cur)"
    using frame by (simp add: sameFrame_def)
  from inv have valid: "\<forall>r \<in> set (accepted sg) \<union> set (cur # q). r < length h \<and> lab h r \<noteq> \<infinity>"
    and dist: "distinct (accepted sg @ cur # q)"
    and nm: "map fst (nodeMap sg) = [0..<nc]"
    and nim: "nodeIndexMap sg = map (\<lambda>(i, r). (node_id (h0 ! r), i)) (nodeMap sg)"
    and nds: "nodes sg = map (\<lambda>(i, r). (node_id (h0 ! r), r)) (nodeMap sg)"
    and ei: "edgeInv sg ec"
    by (simp_all add: idxInv_def)
  have len: "length h = length h0" using frame by (simp add: sameFrame_def)
  have inj: "inj_on (\<lambda>r. node_id (h0 ! r)) {..<length h0}"
    using ids by (auto simp: inj_on_def distinct_conv_nth)
  have new_id: "node_id (h0 ! cur) \<notin> (\<lambda>r. node_id (h0 ! r)) ` set (accepted sg)"
  proof
    assume "node_id (h0 ! cur) \<in> (\<lambda>r. node_id (h0 ! r)) ` set (accepted sg)"
    then obtain r where r: "r \<in> set (accepted sg)" "node_id (h0 ! r) = node_id (h0 ! cur)" by auto
    from r(1) valid have "r < length h0" "cur < length h0" using len by auto
    with inj r(2) have "r = cur" by (auto simp: inj_on_def)
    with r(1) dist show False by auto
  qed
  have keys1: "map fst (nodeIndexMap sg) = map (\<lambda>r. node_id (h0 ! r)) (accepted sg)"
    unfolding nim accepted_def by (induction "nodeMap sg") auto
  have keys3: "map fst (nodes sg) = map (\<lambda>r. node_id (h0 ! r)) (accepted sg)"
    unfolding nds accepted_def by (induction "nodeMap sg") auto
  have k1: "\<not> Map_has (nodeIndexMap sg) (node_id (h ! cur))"
    unfolding Map_has_fst keys1 id_cur using new_id by simp
  have k2: "\<not> Map_has (nodeMap sg) nc" by (simp add: Map_has_fst nm)
  have k3: "\<not> Map_has (nodes sg) (node_id (h ! cur))"
    unfolding Map_has_fst keys3 id_cur using new_id by simp
  have sg1: "nodeIndexMap ?sg1 = nodeIndexMap sg @ [(node_id (h0 ! cur), nc)]"
    "nodeMap ?sg1 = nodeMap sg @ [(nc, cur)]"
    "nodes ?sg1 = nodes sg @ [(node_id (h0 ! cur), cur)]"
    "edgeIndexMap ?sg1 = edgeIndexMap sg" "edgeIDMap ?sg1 = edgeIDMap sg" "edges ?sg1 = edges sg"
    using k1 k2 k3 by (simp_all add: acceptNode_def Map_set_new id_cur)
  have ei1: "edgeInv ?sg1 ec" using ei edgeInv_cong [OF sg1(4,5,6), of ec] by simp
  note fe = fold_edgeItem_inv [OF ei1 e, unfolded sg1(6)]
  from fe eq have ei': "edgeInv sg' ec'" and nf: "nodeFields sg' = nodeFields ?sg1" by simp_all
  from fe eq have ed: "edgesWf es \<longrightarrow> (\<forall>(k, e) \<in> set (edges sg). map_of es k = Some e) \<longrightarrow>
         (\<forall>(k, e) \<in> set (edges sg'). map_of es k = Some e) \<and>
         set (map snd (edges sg')) =
           set (map snd (edges sg)) \<union> foundEdges es h0 cur ?items" by simp
  from nf sg1 have sg': "nodeIndexMap sg' = nodeIndexMap sg @ [(node_id (h0 ! cur), nc)]"
    "nodeMap sg' = nodeMap sg @ [(nc, cur)]"
    "nodes sg' = nodes sg @ [(node_id (h0 ! cur), cur)]"
    by (simp_all add: nodeFields_def)
  have frame': "sameFrame h' h0" using fr' frame by (simp add: sameFrame_def)
  have len': "length h' = length h" using fr' by (simp add: sameFrame_def)
  from c frame' len' labs q' ns sg' ei' ed show ?thesis by blast
qed

lemma idxInvD:
  assumes "idxInv h0 h q sg nc ec"
  shows "sameFrame h h0" and "map fst (nodeMap sg) = [0..<nc]"
    and "nodeIndexMap sg = map (\<lambda>(i, r). (node_id (h0 ! r), i)) (nodeMap sg)"
    and "nodes sg = map (\<lambda>(i, r). (node_id (h0 ! r), r)) (nodeMap sg)"
    and "distinct (accepted sg @ q)"
    and "\<forall>r \<in> set (accepted sg) \<union> set q. r < length h \<and> lab h r \<noteq> \<infinity>"
    and "edgeInv sg ec"
  using assms unfolding idxInv_def by blast+

lemma idxInv_step:
  assumes ids: "distinct (map node_id h0)"
    and inv: "idxInv h0 h (cur # q) sg nc ec"
    and le: "\<not> enat k < lab h cur"
    and f: "fold (visitItem es cur) (adjacentSet (h ! cur)) (h, q, acceptNode h sg cur nc, ec)
        = (h', q', sg', ec')"
  shows "idxInv h0 h' q' sg' (nc + 1) ec'"
proof -
  let ?items = "adjacentSet (h0 ! cur)"
  from visit_step [OF assms] obtain c ns where
    c: "lab h cur = enat c" and frame': "sameFrame h' h0" and len': "length h' = length h" and
    labs: "\<And>v. lab h' v = (if v \<in> fresh h ?items then enat (Suc c) else lab h v)" and
    q': "q' = q @ ns" and ns: "set ns = fresh h ?items" "distinct ns" and
    sg': "nodeIndexMap sg' = nodeIndexMap sg @ [(node_id (h0 ! cur), nc)]"
      "nodeMap sg' = nodeMap sg @ [(nc, cur)]"
      "nodes sg' = nodes sg @ [(node_id (h0 ! cur), cur)]" and
    ei': "edgeInv sg' ec'"
    by blast
  from inv have valid: "\<forall>r \<in> set (accepted sg) \<union> set (cur # q). r < length h \<and> lab h r \<noteq> \<infinity>"
    and dist: "distinct (accepted sg @ cur # q)"
    and nm: "map fst (nodeMap sg) = [0..<nc]"
    and nim: "nodeIndexMap sg = map (\<lambda>(i, r). (node_id (h0 ! r), i)) (nodeMap sg)"
    and nds: "nodes sg = map (\<lambda>(i, r). (node_id (h0 ! r), r)) (nodeMap sg)"
    by (simp_all add: idxInv_def)
  have acc': "accepted sg' = accepted sg @ [cur]" by (simp add: accepted_def sg')
  have old: "r \<notin> fresh h ?items" if "r \<in> set (accepted sg) \<union> set (cur # q)" for r
    using that valid by (auto simp: fresh_def)
  have d': "distinct (accepted sg' @ q')"
    using dist ns old by (auto simp: acc' q')
  have v': "\<forall>r \<in> set (accepted sg') \<union> set q'. r < length h' \<and> lab h' r \<noteq> \<infinity>"
  proof
    fix r assume r: "r \<in> set (accepted sg') \<union> set q'"
    show "r < length h' \<and> lab h' r \<noteq> \<infinity>"
    proof (cases "r \<in> fresh h ?items")
      case True
      then show ?thesis by (simp add: labs len') (simp add: fresh_def)
    next
      case False
      with r ns have "r \<in> set (accepted sg) \<union> set (cur # q)" by (auto simp: acc' q')
      with valid have "r < length h \<and> lab h r \<noteq> \<infinity>" by blast
      with False show ?thesis by (simp add: labs len')
    qed
  qed
  show ?thesis
    unfolding idxInv_def
    using frame' nm nim nds d' v' ei' by (simp add: sg')
qed

lemma distInv_step:
  assumes ids: "distinct (map node_id h0)"
    and closed: "closedHeap h0"
    and inv: "idxInv h0 h (cur # q) sg nc ec"
    and dinv: "distInv h0 r k h (cur # q) sg"
    and le: "\<not> enat k < lab h cur"
    and f: "fold (visitItem es cur) (adjacentSet (h ! cur)) (h, q, acceptNode h sg cur nc, ec)
        = (h', q', sg', ec')"
  shows "distInv h0 r k h' q' sg'"
proof -
  let ?items = "adjacentSet (h0 ! cur)"
  let ?F = "fresh h ?items"
  let ?D = "hopDistance h0 r"
  let ?V = "set (accepted sg)"
  from visit_step [OF ids inv le f] obtain c ns where
    c: "lab h cur = enat c" and ck: "c \<le> k" and
    frame': "sameFrame h' h0" and len': "length h' = length h" and
    labs: "\<And>v. lab h' v = (if v \<in> ?F then enat (Suc c) else lab h v)" and
    q': "q' = q @ ns" and ns: "set ns = ?F" "distinct ns" and
    nm': "nodeMap sg' = nodeMap sg @ [(nc, cur)]"
    by blast
  have acc': "set (accepted sg') = insert cur ?V" by (simp add: accepted_def nm')
  from inv have frame: "sameFrame h h0"
    and valid: "\<forall>r \<in> ?V \<union> set (cur # q). r < length h \<and> lab h r \<noteq> \<infinity>"
    by (simp_all add: idxInv_def)
  have len: "length h = length h0" using frame by (simp add: sameFrame_def)
  from valid have cur: "cur < length h" by simp
  note d = dinv [unfolded distInv_def]
  note d2 = d [THEN conjunct1] and d3 = d [THEN conjunct2, THEN conjunct1]
    and d4 = d [THEN conjunct2, THEN conjunct2, THEN conjunct1]
    and d5 = d [THEN conjunct2, THEN conjunct2, THEN conjunct2, THEN conjunct1]
    and d6 = d [THEN conjunct2, THEN conjunct2, THEN conjunct2, THEN conjunct2, THEN conjunct1]
    and d7 = d [THEN conjunct2, THEN conjunct2, THEN conjunct2, THEN conjunct2, THEN conjunct2,
                THEN conjunct1]
    and d8 = d [THEN conjunct2, THEN conjunct2, THEN conjunct2, THEN conjunct2, THEN conjunct2,
                THEN conjunct2, THEN conjunct1]
    and d9 = d [THEN conjunct2, THEN conjunct2, THEN conjunct2, THEN conjunct2, THEN conjunct2,
                THEN conjunct2, THEN conjunct2]
  have B2: "lab h v = ?D v" if "v < length h" "lab h v \<noteq> \<infinity>" for v
    using d2 that by blast
  note B3 = d3
  have B4: "w < length h \<and> lab h w \<noteq> \<infinity>"
    if "v \<in> ?V" "w \<in> set (adjacentSet (h0 ! v))" for v w
    using d4 that by blast
  note B5 = d5
  have B6: "lab h w \<le> lab h cur + 1" if "w \<in> set (cur # q)" for w
    using d6 that by (simp del: set_simps)
  have B7: "lab h v \<le> lab h w" if "v \<in> ?V" "w \<in> set (cur # q)" for v w
    using d7 that by blast
  note B8 = d8
  have B9: "lab h v \<le> enat k" if "v \<in> ?V" for v
    using d9 that by blast
  have Dcur: "?D cur = enat c" using B2 [OF cur] c by simp
  have labelled_iff: "v < length h \<and> lab h v \<noteq> \<infinity> \<longleftrightarrow> v \<in> ?V \<union> set (cur # q)" for v
    using B3 by blast
  have qlow: "enat c \<le> lab h w" if "w \<in> set q" for w
    using B5 that c by auto
  have qhigh: "lab h w \<le> enat (Suc c)" if "w \<in> set q" for w
    using B6 [of w] that c by (simp add: one_enat_def)
  have L: "?D u = enat n \<Longrightarrow> n \<le> c \<Longrightarrow> u < length h \<and> lab h u \<noteq> \<infinity>" for u n
  proof (induction n arbitrary: u)
    case 0
    then have "u = r" by (simp add: hop_zero_iff zero_enat_def [symmetric])
    with B8 show ?case by (simp only: labelled_iff)
  next
    case (Suc n)
    from hop_pred [OF Suc.prems(1)] obtain p where
      p: "(p, u) \<in> adjacency h0" "?D p = enat n" by blast
    from Suc.IH [OF p(2)] Suc.prems(2) have pl: "p < length h" "lab h p \<noteq> \<infinity>" by simp_all
    with B2 p(2) have labp: "lab h p = enat n" by simp
    from pl have "p \<in> ?V \<union> set (cur # q)" by (simp only: labelled_iff [symmetric]) simp
    moreover have "p \<notin> set (cur # q)"
    proof
      assume "p \<in> set (cur # q)"
      then have "lab h cur \<le> lab h p" using B5 by auto
      with c labp Suc.prems(2) show False by simp
    qed
    ultimately have "p \<in> ?V" by blast
    moreover from p(1) have "u \<in> set (adjacentSet (h0 ! p))" by (simp add: adjacency_def)
    ultimately show ?case by (rule B4)
  qed
  have notF: "v \<notin> ?F" if "v < length h" "lab h v \<noteq> \<infinity>" for v
    using that by (simp add: fresh_def)
  have inF: "v < length h \<and> lab h v = \<infinity> \<and> v \<in> set ?items" if "v \<in> ?F" for v
    using that by (simp add: fresh_def)
  have DF: "?D v = enat (Suc c)" if v: "v \<in> ?F" for v
  proof (rule enat_between)
    from inF [OF v] cur len have "(cur, v) \<in> adjacency h0" by (simp add: adjacency_def)
    from hop_edge [OF this, of r] Dcur show "?D v \<le> enat (Suc c)" by (simp add: one_enat_def)
    show "\<not> ?D v \<le> enat c"
    proof
      assume "?D v \<le> enat c"
      then obtain n where "?D v = enat n" "n \<le> c" by (cases "?D v") auto
      from L [OF this] inF [OF v] show False by simp
    qed
  qed
  have B2': "\<forall>v. v < length h' \<and> lab h' v \<noteq> \<infinity> \<longrightarrow> lab h' v = ?D v"
  proof (intro allI impI)
    fix v assume v: "v < length h' \<and> lab h' v \<noteq> \<infinity>"
    show "lab h' v = ?D v"
    proof (cases "v \<in> ?F")
      case True
      then show ?thesis by (simp add: labs DF)
    next
      case False
      with v have "v < length h" "lab h v \<noteq> \<infinity>" by (simp_all add: labs len')
      from B2 [OF this] False show ?thesis by (simp add: labs)
    qed
  qed
  have B3': "{v. v < length h' \<and> lab h' v \<noteq> \<infinity>} = set (accepted sg') \<union> set q'"
  proof (rule set_eqI)
    fix v
    show "v \<in> {v. v < length h' \<and> lab h' v \<noteq> \<infinity>} \<longleftrightarrow> v \<in> set (accepted sg') \<union> set q'"
    proof (cases "v \<in> ?F")
      case True
      with inF [OF True] show ?thesis by (simp add: labs len' q' ns)
    next
      case False
      have "v \<in> ?V \<union> set (cur # q) \<longleftrightarrow> v \<in> set (accepted sg') \<union> set q'"
        using False by (auto simp: acc' q' ns)
      with False labelled_iff [of v] show ?thesis by (simp add: labs len')
    qed
  qed
  have closed_cur: "w < length h" if "w \<in> set ?items" for w
  proof -
    from cur len have "h0 ! cur \<in> set h0" by simp
    with closed that len show ?thesis by (auto simp: closedHeap_def)
  qed
  have B4': "\<forall>v \<in> set (accepted sg'). \<forall>w \<in> set (adjacentSet (h0 ! v)). w < length h' \<and> lab h' w \<noteq> \<infinity>"
  proof (intro ballI)
    fix v w assume v: "v \<in> set (accepted sg')" and w: "w \<in> set (adjacentSet (h0 ! v))"
    have wl: "w < length h"
    proof (cases "v = cur")
      case True with w show ?thesis by (simp add: closed_cur)
    next
      case False with v w acc' B4 show ?thesis by auto
    qed
    show "w < length h' \<and> lab h' w \<noteq> \<infinity>"
    proof (cases "w \<in> ?F")
      case True
      then show ?thesis by (simp add: labs len' wl)
    next
      case False
      have "lab h w \<noteq> \<infinity>"
      proof (cases "v = cur")
        case True
        with w False wl show ?thesis by (auto simp: fresh_def)
      next
        case False with v w acc' B4 show ?thesis by auto
      qed
      with False show ?thesis by (simp add: labs len' wl)
    qed
  qed
  have labq: "lab h' w = lab h w" if "w \<in> set q" for w
  proof -
    from that valid have "w < length h \<and> lab h w \<noteq> \<infinity>" by simp
    then show ?thesis by (simp add: labs notF)
  qed
  have labn: "lab h' w = enat (Suc c)" if "w \<in> set ns" for w
    using that ns by (simp add: labs)
  have labV: "lab h' v = lab h v" if "v \<in> insert cur ?V" for v
  proof -
    from that valid have "v < length h \<and> lab h v \<noteq> \<infinity>" by auto
    then show ?thesis by (simp add: labs notF)
  qed
  have low': "enat c \<le> lab h' w" if "w \<in> set q'" for w
    using that qlow labq labn by (auto simp: q')
  have high': "lab h' w \<le> enat (Suc c)" if "w \<in> set q'" for w
    using that qhigh labq labn by (auto simp: q')
  have B5': "sorted (map (lab h') q')"
  proof -
    have m1: "map (lab h') q = map (lab h) q" using labq by simp
    have m2: "map (lab h') ns = replicate (length ns) (enat (Suc c))"
      using labn by (simp add: map_replicate_const [symmetric] cong: map_cong)
    have s1: "sorted (map (lab h) q)" using B5 by simp
    have "sorted (map (lab h) q @ replicate (length ns) (enat (Suc c)))"
      using s1 qhigh by (auto simp: sorted_append)
    then show ?thesis by (simp add: q' m1 m2)
  qed
  have B6': "\<forall>w \<in> set q'. lab h' w \<le> lab h' (hd q') + 1"
  proof
    fix w assume w: "w \<in> set q'"
    then have "q' \<noteq> []" by auto
    then have "hd q' \<in> set q'" by simp
    from low' [OF this] have "enat (Suc c) \<le> lab h' (hd q') + 1"
      by (cases "lab h' (hd q')") (simp_all add: one_enat_def)
    with high' [OF w] show "lab h' w \<le> lab h' (hd q') + 1" by (rule order_trans)
  qed
  have B7': "\<forall>v \<in> set (accepted sg'). \<forall>w \<in> set q'. lab h' v \<le> lab h' w"
  proof (intro ballI)
    fix v w assume v: "v \<in> set (accepted sg')" and w: "w \<in> set q'"
    from v have vv: "v \<in> insert cur ?V" by (simp add: acc')
    have "lab h v \<le> enat c"
    proof (cases "v = cur")
      case True with c show ?thesis by simp
    next
      case False
      with vv B7 [of v cur] c show ?thesis by simp
    qed
    with labV [OF vv] low' [OF w] show "lab h' v \<le> lab h' w" by simp
  qed
  have B8': "r \<in> set (accepted sg') \<union> set q'"
    using B8 by (auto simp: acc' q')
  have B9': "\<forall>v \<in> set (accepted sg'). lab h' v \<le> enat k"
  proof
    fix v assume "v \<in> set (accepted sg')"
    then have vv: "v \<in> insert cur ?V" by (simp add: acc')
    show "lab h' v \<le> enat k"
    proof (cases "v = cur")
      case True with labV [OF vv] c ck show ?thesis by simp
    next
      case False with vv labV [OF vv] B9 [of v] show ?thesis by simp
    qed
  qed
  show ?thesis
    unfolding distInv_def
    using B2' B3' B4' B5' B6' B7' B8' B9' by (intro conjI)
qed

lemma edgeSetInv_step:
  assumes ids: "distinct (map node_id h0)"
    and wf: "edgesWf es"
    and inv: "idxInv h0 h (cur # q) sg nc ec"
    and einv: "edgeSetInv es h0 sg"
    and le: "\<not> enat k < lab h cur"
    and f: "fold (visitItem es cur) (adjacentSet (h ! cur)) (h, q, acceptNode h sg cur nc, ec)
        = (h', q', sg', ec')"
  shows "edgeSetInv es h0 sg'"
proof -
  from visit_step [OF ids inv le f] obtain
    nm': "nodeMap sg' = nodeMap sg @ [(nc, cur)]" and
    ed: "edgesWf es \<longrightarrow> (\<forall>(k, e) \<in> set (edges sg). map_of es k = Some e) \<longrightarrow>
         (\<forall>(k, e) \<in> set (edges sg'). map_of es k = Some e) \<and>
         set (map snd (edges sg')) =
           set (map snd (edges sg)) \<union> foundEdges es h0 cur (adjacentSet (h0 ! cur))"
    by blast
  from einv have sub: "\<forall>(k, e) \<in> set (edges sg). map_of es k = Some e"
    and eq: "set (map snd (edges sg)) =
        (\<Union>v \<in> set (accepted sg). foundEdges es h0 v (adjacentSet (h0 ! v)))"
    by (simp_all add: edgeSetInv_def)
  from ed wf sub have sub': "\<forall>(k, e) \<in> set (edges sg'). map_of es k = Some e"
    and eq': "set (map snd (edges sg')) =
           set (map snd (edges sg)) \<union> foundEdges es h0 cur (adjacentSet (h0 ! cur))"
    by blast+
  have acc': "set (accepted sg') = insert cur (set (accepted sg))" by (simp add: accepted_def nm')
  show ?thesis
    unfolding edgeSetInv_def acc' using sub' eq' eq by auto
qed

lemma fullInv_step:
  assumes "distinct (map node_id h0)" "closedHeap h0" "edgesWf es"
    and "fullInv es h0 r k h (cur # q) sg nc ec"
    and "\<not> enat k < lab h cur"
    and "fold (visitItem es cur) (adjacentSet (h ! cur)) (h, q, acceptNode h sg cur nc, ec)
        = (h', q', sg', ec')"
  shows "fullInv es h0 r k h' q' sg' (nc + 1) ec'"
  using assms unfolding fullInv_def
  by (metis idxInv_step distInv_step edgeSetInv_step)

text \<open>The state in which the search starts.\<close>

lemma lab_root:
  assumes "r < length h0"
  shows "lab (h0[r := (h0 ! r)\<lparr>node_distance := 0\<rparr>]) v = (if v = r then 0 else lab h0 v)"
  using assms by (simp add: lab_def nth_list_update)

lemma lab_root_fin:
  assumes "r < length h0"
  shows "lab (h0[r := (h0 ! r)\<lparr>node_distance := 0\<rparr>]) v \<noteq> \<infinity> \<longleftrightarrow> v = r \<or> lab h0 v \<noteq> \<infinity>"
proof (cases "v = r")
  case True
  have "(0::enat) \<noteq> \<infinity>" by (simp add: zero_enat_def)
  with True assms show ?thesis by (simp only: lab_root [OF assms] if_True simp_thms)
next
  case False
  then show ?thesis by (simp only: lab_root [OF assms] if_False simp_thms)
qed

lemma edgeInv_new: "edgeInv (new_Graph sub) 0"
  by (simp add: edgeInv_def new_Graph_def)

lemma idxInv_init:
  assumes "r < length h0"
  shows "idxInv h0 (h0[r := (h0 ! r)\<lparr>node_distance := 0\<rparr>]) [r] (new_Graph True) 0 0"
proof -
  let ?h = "h0[r := (h0 ! r)\<lparr>node_distance := 0\<rparr>]"
  have "sameFrame ?h h0" by (rule sameFrame_update [OF sameFrame_refl])
  moreover have "lab ?h r \<noteq> \<infinity>" by (simp only: lab_root_fin [OF assms] simp_thms)
  moreover have "accepted (new_Graph True) = []" "nodeMap (new_Graph True) = []"
    "nodeIndexMap (new_Graph True) = []" "nodes (new_Graph True) = []"
    by (simp_all add: accepted_def new_Graph_def)
  ultimately show ?thesis
    unfolding idxInv_def using assms edgeInv_new [of True] by simp
qed

lemma distInv_init:
  assumes r: "r < length h0" and fresh0: "\<forall>n \<in> set h0. node_distance n = \<infinity>"
  shows "distInv h0 r k (h0[r := (h0 ! r)\<lparr>node_distance := 0\<rparr>]) [r] (new_Graph True)"
proof -
  have l0: "lab h0 v = \<infinity>" if "v < length h0" for v
    using fresh0 that by (simp add: lab_def)
  have acc: "accepted (new_Graph True) = []" by (simp add: accepted_def new_Graph_def)
  let ?h = "h0[r := (h0 ! r)\<lparr>node_distance := 0\<rparr>]"
  have iff: "v < length ?h \<and> lab ?h v \<noteq> \<infinity> \<longleftrightarrow> v = r" for v
    unfolding lab_root_fin [OF r] using r l0 [of v] by auto
  have "\<forall>v. v < length ?h \<and> lab ?h v \<noteq> \<infinity> \<longrightarrow> lab ?h v = hopDistance h0 r v"
    unfolding iff by (simp add: lab_root [OF r] hop_self)
  moreover have "{v. v < length ?h \<and> lab ?h v \<noteq> \<infinity>} = {r}"
    unfolding iff by simp
  ultimately show ?thesis
    unfolding distInv_def acc by simp
qed

lemma edgeSetInv_init: "edgeSetInv es h0 (new_Graph True)"
  by (simp add: edgeSetInv_def accepted_def new_Graph_def)

text \<open>What the invariants give when the loop has ended.\<close>

lemma distInv_final:
  assumes closed: "closedHeap h0" and r: "r < length h0"
    and inv: "idxInv h0 h q sg nc ec"
    and dinv: "distInv h0 r k h q sg"
    and fin: "q = [] \<or> enat k < lab h (hd q)"
  shows "set (accepted sg) = {v. hopDistance h0 r v \<le> enat k}"
proof -
  let ?D = "hopDistance h0 r"
  let ?V = "set (accepted sg)"
  note d = dinv [unfolded distInv_def]
  note d2 = d [THEN conjunct1] and d3 = d [THEN conjunct2, THEN conjunct1]
    and d4 = d [THEN conjunct2, THEN conjunct2, THEN conjunct1]
    and d5 = d [THEN conjunct2, THEN conjunct2, THEN conjunct2, THEN conjunct1]
    and d8 = d [THEN conjunct2, THEN conjunct2, THEN conjunct2, THEN conjunct2, THEN conjunct2,
                THEN conjunct2, THEN conjunct1]
    and d9 = d [THEN conjunct2, THEN conjunct2, THEN conjunct2, THEN conjunct2, THEN conjunct2,
                THEN conjunct2, THEN conjunct2]
  have labelled_iff: "v < length h \<and> lab h v \<noteq> \<infinity> \<longleftrightarrow> v \<in> ?V \<union> set q" for v
    using d3 by blast
  have B2: "lab h v = ?D v" if "v \<in> ?V \<union> set q" for v
    using d2 that labelled_iff [of v] by blast
  have notq: "v \<notin> set q" if "?D v \<le> enat k" for v
  proof
    assume v: "v \<in> set q"
    then have "q \<noteq> []" by auto
    with fin have k: "enat k < lab h (hd q)" by simp
    from v d5 have "lab h (hd q) \<le> lab h v"
      by (cases q) auto
    with k that B2 [of v] v show False by simp
  qed
  have sup: "?D v = enat n \<Longrightarrow> n \<le> k \<Longrightarrow> v \<in> ?V" for v n
  proof (induction n arbitrary: v)
    case 0
    then have "v = r" by (simp add: hop_zero_iff zero_enat_def [symmetric])
    moreover from 0 have "?D v \<le> enat k" by simp
    ultimately show ?case using d8 notq [of v] by blast
  next
    case (Suc n)
    from hop_pred [OF Suc.prems(1)] obtain p where
      p: "(p, v) \<in> adjacency h0" "?D p = enat n" by blast
    from Suc.IH [OF p(2)] Suc.prems(2) have "p \<in> ?V" by simp
    moreover from p(1) have "v \<in> set (adjacentSet (h0 ! p))" by (simp add: adjacency_def)
    ultimately have "v < length h \<and> lab h v \<noteq> \<infinity>" using d4 by blast
    then have "v \<in> ?V \<union> set q" by (simp only: labelled_iff)
    moreover from Suc.prems have "?D v \<le> enat k" by simp
    ultimately show ?case using notq [of v] by blast
  qed
  show ?thesis
  proof (intro set_eqI iffI)
    fix v assume v: "v \<in> ?V"
    with d9 have "lab h v \<le> enat k" by blast
    with B2 [of v] v show "v \<in> {v. ?D v \<le> enat k}" by simp
  next
    fix v assume "v \<in> {v. ?D v \<le> enat k}"
    then obtain n where "?D v = enat n" "n \<le> k" by (cases "?D v") auto
    then show "v \<in> ?V" by (rule sup)
  qed
qed

lemma generateSubGraph_unfold:
  "generateSubGraph h g sid numHops =
     (case (case (case sid of None \<Rightarrow> defaultStartNodeID h g | Some s \<Rightarrow> Some s) of
              None \<Rightarrow> None | Some s \<Rightarrow> Map_get (nodes g) s) of
        None \<Rightarrow> Inl TypeError
      | Some r \<Rightarrow>
          (case bfs (hopsOf numHops) (edges g)
                  (h[r := (h ! r)\<lparr>node_distance := 0\<rparr>], [r], new_Graph True, 0, 0) of
             (h2, sg, nc, ec) \<Rightarrow>
               Inr (h2, sg\<lparr>edgeNodeIndex := buildEdgeNodeIndex h2 sg, numberOfNodes := nc,
                            numberOfEdges := ec\<rparr>)))"
  unfolding generateSubGraph_def hopsOf_def by (simp add: resetDistance_id del: bfs.simps)

lemma generateSubGraph_seed:
  assumes "Map_get (nodes g) s = Some r"
    and "bfs (hopsOf numHops) (edges g)
           (h[r := (h ! r)\<lparr>node_distance := 0\<rparr>], [r], new_Graph True, 0, 0) = (hf, sgf, nc, ec)"
  shows "generateSubGraph h g (Some s) numHops =
           Inr (hf, sgf\<lparr>edgeNodeIndex := buildEdgeNodeIndex hf sgf, numberOfNodes := nc,
                         numberOfEdges := ec\<rparr>)"
  using assms unfolding generateSubGraph_unfold by simp

lemma generateSubGraph_Inr:
  assumes "generateSubGraph h g sid numHops = Inr (h', sg)"
  shows "\<exists>s r sgf nc ec. Map_get (nodes g) s = Some r \<and>
           bfs (hopsOf numHops) (edges g)
             (h[r := (h ! r)\<lparr>node_distance := 0\<rparr>], [r], new_Graph True, 0, 0) = (h', sgf, nc, ec) \<and>
           sg = sgf\<lparr>edgeNodeIndex := buildEdgeNodeIndex h' sgf, numberOfNodes := nc,
                      numberOfEdges := ec\<rparr>"
proof -
  let ?sid = "case sid of None \<Rightarrow> defaultStartNodeID h g | Some s \<Rightarrow> Some s"
  from assms obtain s where s: "?sid = Some s"
    unfolding generateSubGraph_unfold by (cases ?sid) simp_all
  from assms s obtain r where r: "Map_get (nodes g) s = Some r"
    unfolding generateSubGraph_unfold by (cases "Map_get (nodes g) s") simp_all
  obtain hf sgf nc ec where res: "bfs (hopsOf numHops) (edges g)
      (h[r := (h ! r)\<lparr>node_distance := 0\<rparr>], [r], new_Graph True, 0, 0) = (hf, sgf, nc, ec)"
    by (metis prod_cases4)
  from assms have "h' = hf \<and> sg = sgf\<lparr>edgeNodeIndex := buildEdgeNodeIndex hf sgf,
      numberOfNodes := nc, numberOfEdges := ec\<rparr>"
    unfolding generateSubGraph_unfold by (auto simp add: s r res simp del: bfs.simps)
  with r res show ?thesis by blast
qed

lemma node_in_heap:
  "closed h g \<Longrightarrow> Map_get (nodes g) s = Some r \<Longrightarrow> r < length h"
  by (auto simp: closed_def Map_get_def dest!: map_of_SomeD)

lemma index_result:
  assumes ids: "distinct (map node_id h)" and r: "r < length h"
    and res: "bfs k es (h[r := (h ! r)\<lparr>node_distance := 0\<rparr>], [r], new_Graph True, 0, 0)
                = (hf, sgf, nc, ec)"
  shows "\<exists>qf. idxInv h hf qf sgf nc ec"
proof -
  have "\<exists>qf. idxInv h hf qf sgf nc ec \<and> (qf = [] \<or> enat k < lab hf (hd qf))"
  proof (rule bfs_invariant [where I = "idxInv h", OF idxInv_init [OF r] res])
    fix h1 cur q sg nc ec h' q' sg' ec'
    assume "idxInv h h1 (cur # q) sg nc ec" "\<not> enat k < lab h1 cur"
      "fold (visitItem es cur) (adjacentSet (h1 ! cur)) (h1, q, acceptNode h1 sg cur nc, ec)
         = (h', q', sg', ec')"
    then show "idxInv h h' q' sg' (nc + 1) ec'" by (rule idxInv_step [OF ids])
  qed
  then show ?thesis by blast
qed

lemma search_result:
  assumes ids: "distinct (map node_id h)" and cl: "closedHeap h" and wf: "edgesWf es"
    and fresh0: "\<forall>n \<in> set h. node_distance n = \<infinity>"
    and r: "r < length h"
    and res: "bfs k es (h[r := (h ! r)\<lparr>node_distance := 0\<rparr>], [r], new_Graph True, 0, 0)
                = (hf, sgf, nc, ec)"
  shows "\<exists>qf. idxInv h hf qf sgf nc ec \<and> edgeSetInv es h sgf \<and>
           set (accepted sgf) = {v. hopDistance h r v \<le> enat k}"
proof -
  have init: "fullInv es h r k (h[r := (h ! r)\<lparr>node_distance := 0\<rparr>]) [r] (new_Graph True) 0 0"
    unfolding fullInv_def
    using idxInv_init [OF r] distInv_init [OF r fresh0] edgeSetInv_init by blast
  have "\<exists>qf. fullInv es h r k hf qf sgf nc ec \<and> (qf = [] \<or> enat k < lab hf (hd qf))"
  proof (rule bfs_invariant [where I = "fullInv es h r k", OF init res])
    fix h1 cur q sg nc ec h' q' sg' ec'
    assume "fullInv es h r k h1 (cur # q) sg nc ec" "\<not> enat k < lab h1 cur"
      "fold (visitItem es cur) (adjacentSet (h1 ! cur)) (h1, q, acceptNode h1 sg cur nc, ec)
         = (h', q', sg', ec')"
    then show "fullInv es h r k h' q' sg' (nc + 1) ec'" by (rule fullInv_step [OF ids cl wf])
  qed
  then obtain qf where f: "fullInv es h r k hf qf sgf nc ec" "qf = [] \<or> enat k < lab hf (hd qf)"
    by blast
  then have i: "idxInv h hf qf sgf nc ec" and d: "distInv h r k hf qf sgf"
    and e: "edgeSetInv es h sgf" by (simp_all add: fullInv_def)
  from distInv_final [OF cl r i d f(2)] i e show ?thesis by blast
qed

lemma idxInv_nodes_set:
  assumes "idxInv h hf qf sgf nc ec"
  shows "set (nodes sgf) = (\<lambda>v. (node_id (h ! v), v)) ` set (accepted sgf)"
proof -
  from assms have "nodes sgf = map (\<lambda>(i, r). (node_id (h ! r), r)) (nodeMap sgf)"
    by (simp add: idxInv_def)
  then show ?thesis by (force simp: accepted_def)
qed

lemma edgeSetInv_edges:
  assumes "edgeSetInv es h sgf"
  shows "set (Map_values (edges sgf)) =
     {e. \<exists>a \<in> set (accepted sgf). \<exists>b \<in> set (adjacentSet (h ! a)).
           getEdgeIDFromNodes es (h ! a) (h ! b) = Some e}"
  using assms by (auto simp: edgeSetInv_def Map_values_def foundEdges_def)

lemma idxInv_keys_distinct:
  assumes ids: "distinct (map node_id h)" and inv: "idxInv h hf qf sgf nc ec"
  shows "distinct (map fst (nodeIndexMap sgf))"
proof -
  note nim = idxInvD(3) [OF inv]
  from idxInvD(5) [OF inv] have d: "distinct (accepted sgf)" by simp
  from idxInvD(6) [OF inv] have valid: "\<forall>r \<in> set (accepted sgf). r < length hf" by blast
  from idxInvD(1) [OF inv] have len: "length hf = length h" by (simp add: sameFrame_def)
  have keys: "map fst (nodeIndexMap sgf) = map (\<lambda>r. node_id (h ! r)) (accepted sgf)"
    unfolding nim accepted_def by (induction "nodeMap sgf") auto
  have "inj_on (\<lambda>r. node_id (h ! r)) (set (accepted sgf))"
    using ids valid len by (auto simp: inj_on_def distinct_conv_nth)
  with d show ?thesis unfolding keys by (simp add: distinct_map)
qed

lemma idxInv_index_values:
  assumes "idxInv h hf qf sgf nc ec"
  shows "map snd (nodeIndexMap sgf) = [0..<nc]" "length (nodes sgf) = nc"
proof -
  from assms have nim: "nodeIndexMap sgf = map (\<lambda>(i, r). (node_id (h ! r), i)) (nodeMap sgf)"
    and nds: "nodes sgf = map (\<lambda>(i, r). (node_id (h ! r), r)) (nodeMap sgf)"
    and nm: "map fst (nodeMap sgf) = [0..<nc]"
    by (simp_all add: idxInv_def)
  have "map snd (nodeIndexMap sgf) = map fst (nodeMap sgf)"
    unfolding nim by (induction "nodeMap sgf") auto
  with nm show "map snd (nodeIndexMap sgf) = [0..<nc]" by simp
  have "length (nodes sgf) = length (map fst (nodeMap sgf))" unfolding nds by simp
  with nm show "length (nodes sgf) = nc" by simp
qed

lemma edgeInv_lengths:
  assumes "edgeInv sg ec"
  shows "length (edges sg) = ec" "distinct (map snd (edges sg))"
proof -
  from assms have v: "map snd (edgeIndexMap sg) = [0..<ec]"
    and k: "map fst (edges sg) = map fst (edgeIndexMap sg)"
    and d: "distinct (map fst (edgeIndexMap sg))"
    and id: "\<forall>(k, e) \<in> set (edges sg). edge_id e = k"
    by (simp_all add: edgeInv_def)
  have "length (edges sg) = length (map fst (edges sg))" by simp
  also have "\<dots> = length (map snd (edgeIndexMap sg))" unfolding k by simp
  finally show "length (edges sg) = ec" unfolding v by simp
  have fst_eq: "map fst (edges sg) = map (edge_id \<circ> snd) (edges sg)"
    using id by (induction "edges sg") auto
  have "map edge_id (map snd (edges sg)) = map fst (edgeIndexMap sg)"
    using fst_eq k by simp
  with d have "distinct (map edge_id (map snd (edges sg)))" by simp
  then show "distinct (map snd (edges sg))"
    using distinct_map [of edge_id "map snd (edges sg)"] by blast
qed

subsection \<open>The order of dequeuing\<close>

text \<open>One pass over an adjacency set enqueues what \<open>discover\<close> appends to the next
  level, so the loop accepts the nodes in the order of the levels.\<close>

lemma expand_snoc: "expand h (xs @ [v]) s = discover (adjacentSet (h ! v)) (expand h xs s)"
  by (simp add: expand_def)

lemma expand_Nil: "expand h [] s = s"
  by (simp add: expand_def)

lemma bfsLevels_Nil: "bfsLevels h k seen [] = []"
  by (induction k arbitrary: seen) (simp_all add: expand_Nil)

lemma discover_Cons:
  "discover (w # items) (seen, next) =
     (if w \<in> set seen then discover items (seen, next)
      else discover items (seen @ [w], next @ [w]))"
  by (simp add: discover_def)

lemma label_discover:
  assumes "lab h cur = enat c"
    and "\<forall>v<length h. (lab h v \<noteq> \<infinity>) = (v \<in> set seen)"
    and "\<forall>w \<in> set items. w < length h"
    and "fold (labelItem cur) items (h, q) = (h', q')"
  shows "\<exists>ns seen'. discover items (seen, next) = (seen', next @ ns) \<and> q' = q @ ns \<and>
           length h' = length h \<and>
           (\<forall>v<length h. (lab h' v \<noteq> \<infinity>) = (v \<in> set seen')) \<and>
           (\<forall>v. lab h' v = (if v \<in> set ns then enat (Suc c) else lab h v)) \<and>
           (\<forall>w \<in> set ns. lab h w = \<infinity>)"
  using assms
proof (induction items arbitrary: h q seen "next")
  case Nil
  then show ?case by (simp add: discover_def)
next
  case (Cons item items)
  from Cons.prems(3) have it: "item < length h" by simp
  show ?case
  proof (cases "node_distance (h ! item) = \<infinity>")
    case False
    with it Cons.prems(2) have s: "item \<in> set seen" by (auto simp: lab_def)
    from False have l: "labelItem cur item (h, q) = (h, q)" by (simp add: labelItem_def)
    from Cons.prems(3) have i3: "\<forall>w \<in> set items. w < length h" by simp
    from Cons.prems(4) l have f: "fold (labelItem cur) items (h, q) = (h', q')" by simp
    from Cons.IH [OF Cons.prems(1,2) i3 f, of "next"] s show ?thesis
      by (simp add: discover_Cons)
  next
    case True
    define h1 where "h1 = h[item := (h ! item)\<lparr>node_distance := node_distance (h ! cur) + 1\<rparr>]"
    from True it have l: "labelItem cur item (h, q) = (h1, q @ [item])"
      by (simp add: labelItem_def h1_def)
    from True it Cons.prems(2) have s: "item \<notin> set seen" by (auto simp: lab_def)
    from True Cons.prems(1) have ne: "item \<noteq> cur" by (auto simp: lab_def)
    have lab1: "lab h1 v = (if v = item then enat (Suc c) else lab h v)" for v
      using it Cons.prems(1)
      by (auto simp: h1_def lab_def nth_list_update eSuc_enat [symmetric] plus_1_eSuc)
    have c1: "lab h1 cur = enat c" using lab1 [of cur] ne Cons.prems(1) by simp
    have len: "length h1 = length h" by (simp add: h1_def)
    have A1: "\<forall>v<length h1. (lab h1 v \<noteq> \<infinity>) = (v \<in> set (seen @ [item]))"
      using Cons.prems(2) by (auto simp: lab1 len)
    from Cons.prems(3) have i3: "\<forall>w \<in> set items. w < length h1" by (simp add: len)
    from Cons.prems(4) l have f: "fold (labelItem cur) items (h1, q @ [item]) = (h', q')" by simp
    from Cons.IH [OF c1 A1 i3 f, of "next @ [item]"] obtain ns seen' where
      IH: "discover items (seen @ [item], next @ [item]) = (seen', (next @ [item]) @ ns)"
        "q' = (q @ [item]) @ ns" "length h' = length h1"
        "\<forall>v<length h1. (lab h' v \<noteq> \<infinity>) = (v \<in> set seen')"
        "\<forall>v. lab h' v = (if v \<in> set ns then enat (Suc c) else lab h1 v)"
        "\<forall>w \<in> set ns. lab h1 w = \<infinity>"
      by blast
    have "discover (item # items) (seen, next) = (seen', next @ (item # ns))"
      using IH(1) s by (simp add: discover_Cons)
    moreover have "q' = q @ (item # ns)" using IH(2) by simp
    moreover have "length h' = length h" using IH(3) len by simp
    moreover have "\<forall>v<length h. (lab h' v \<noteq> \<infinity>) = (v \<in> set seen')" using IH(4) len by simp
    moreover have "\<forall>v. lab h' v = (if v \<in> set (item # ns) then enat (Suc c) else lab h v)"
      using IH(5) lab1 by auto
    moreover have "\<forall>w \<in> set (item # ns). lab h w = \<infinity>"
    proof
      fix w assume "w \<in> set (item # ns)"
      then have "w = item \<or> w \<in> set ns" by simp
      then show "lab h w = \<infinity>"
      proof
        assume "w = item" then show ?thesis using True by (simp add: lab_def)
      next
        assume w: "w \<in> set ns"
        with IH(6) have "lab h1 w = \<infinity>" by blast
        then show ?thesis by (simp add: lab1 split: if_splits)
      qed
    qed
    ultimately show ?thesis by blast
  qed
qed

lemma ordInv_init:
  assumes "r < length h"
  shows "ordInv h r k (h[r := (h ! r)\<lparr>node_distance := 0\<rparr>]) [r] (new_Graph True)"
proof -
  let ?h1 = "h[r := (h ! r)\<lparr>node_distance := 0\<rparr>]"
  let ?seen = "filter (\<lambda>v. v = r \<or> node_distance (h ! v) \<noteq> \<infinity>) [0..<length h]"
  have lab1: "lab ?h1 v = (if v = r then 0 else lab h v)" for v
    using assms by (auto simp: lab_def nth_list_update)
  have e: "expand h [] (?seen, []) = (?seen, [])" by (simp add: expand_Nil)
  have A: "\<forall>v<length ?h1. (lab ?h1 v \<noteq> \<infinity>) = (v \<in> set ?seen)"
  proof (intro allI impI)
    fix v assume "v < length ?h1"
    then have v: "v < length h" by simp
    show "(lab ?h1 v \<noteq> \<infinity>) = (v \<in> set ?seen)"
    proof (cases "v = r")
      case True
      then show ?thesis using v by (simp add: lab1)
    next
      case False
      then have "lab ?h1 v = node_distance (h ! v)" by (simp add: lab1) (simp add: lab_def)
      then show ?thesis using v False by simp
    qed
  qed
  have acc: "accepted (new_Graph True) = [] @ []" by (simp add: accepted_def new_Graph_def)
  have td: "\<forall>w \<in> set [r]. lab ?h1 w = enat 0" by (simp add: lab1 zero_enat_def [symmetric])
  have D: "[] @ remaining h k 0 ?seen ([] @ [r]) = dequeueOrder h r k"
    by (simp add: remaining_def dequeueOrder_def)
  have q: "[r] = [r] @ []" by simp
  have nx: "\<forall>w \<in> set []. lab ?h1 w = enat (Suc 0)" by simp
  have F: "k < 0 \<longrightarrow> ([]::ref list) = []" by simp
  have E: "[r] = [] \<longrightarrow> [r] = []" by simp
  show ?thesis
    unfolding ordInv_def using e A q nx acc td D F E by blast
qed

lemma ordInv_step:
  assumes ids: "distinct (map node_id h0)" and cl: "closedHeap h0"
    and inv: "idxInv h0 h (cur # q) sg nc ec"
    and ord: "ordInv h0 r k h (cur # q) sg"
    and le: "\<not> enat k < lab h cur"
    and f: "fold (visitItem es cur) (adjacentSet (h ! cur)) (h, q, acceptNode h sg cur nc, ec)
        = (h', q', sg', ec')"
  shows "ordInv h0 r k h' q' sg'"
proof -
  let ?items = "adjacentSet (h0 ! cur)"
  from ord obtain c seen prev "done" todo seen1 next1 where
    ex: "expand h0 done (seen, []) = (seen1, next1)" and
    A: "\<forall>v<length h. (lab h v \<noteq> \<infinity>) = (v \<in> set seen1)" and
    qq: "cur # q = todo @ next1" and
    nx: "\<forall>w \<in> set next1. lab h w = enat (Suc c)" and
    acc: "accepted sg = prev @ done" and
    td: "\<forall>w \<in> set todo. lab h w = enat c" and
    D: "prev @ remaining h0 k c seen (done @ todo) = dequeueOrder h0 r k" and
    E: "todo = [] \<longrightarrow> cur # q = []"
    unfolding ordInv_def by blast
  from E have "todo \<noteq> []" by auto
  with qq obtain todo1 where todo: "todo = cur # todo1" and q: "q = todo1 @ next1"
    by (cases todo) auto
  from td todo have c: "lab h cur = enat c" by simp
  with le have ck: "c \<le> k" by simp
  from inv have frame: "sameFrame h h0"
    and valid: "\<forall>r \<in> set (accepted sg) \<union> set (cur # q). r < length h \<and> lab h r \<noteq> \<infinity>"
    by (simp_all add: idxInv_def)
  have len: "length h = length h0" using frame by (simp add: sameFrame_def)
  have items: "adjacentSet (h ! cur) = ?items" using frame by (simp add: sameFrame_def)
  from valid have cur: "cur < length h0" using len by simp
  then have "h0 ! cur \<in> set h0" by simp
  with cl have iv: "\<forall>w \<in> set ?items. w < length h" unfolding closedHeap_def len by blast
  from visit_step [OF ids inv le f] have nm: "nodeMap sg' = nodeMap sg @ [(nc, cur)]" by blast
  then have acc': "accepted sg' = prev @ (done @ [cur])"
    using acc by (simp add: accepted_def)
  obtain hl ql where l: "fold (labelItem cur) ?items (h, q) = (hl, ql)"
    by (cases "fold (labelItem cur) ?items (h, q)")
  obtain sge ece where e: "fold (\<lambda>item. edgeItem es (h0 ! cur) (h0 ! item)) ?items
      (acceptNode h sg cur nc, ec) = (sge, ece)"
    by (cases "fold (\<lambda>item. edgeItem es (h0 ! cur) (h0 ! item)) ?items (acceptNode h sg cur nc, ec)")
  from f fold_visitItem_split [OF frame, of es cur ?items q "acceptNode h sg cur nc" ec] l e
  have eq: "h' = hl" "q' = ql" by (simp_all add: items)
  from l eq have l': "fold (labelItem cur) ?items (h, q) = (h', q')" by simp
  from label_discover [OF c A iv l', of next1] obtain ns seen2 where
    d: "discover ?items (seen1, next1) = (seen2, next1 @ ns)" and
    q': "q' = q @ ns" and len': "length h' = length h" and
    A': "\<forall>v<length h. (lab h' v \<noteq> \<infinity>) = (v \<in> set seen2)" and
    labs: "\<And>v. lab h' v = (if v \<in> set ns then enat (Suc c) else lab h v)" and
    fr: "\<forall>w \<in> set ns. lab h w = \<infinity>"
    by blast
  have ex': "expand h0 (done @ [cur]) (seen, []) = (seen2, next1 @ ns)"
    by (simp add: expand_snoc ex d)
  have nx': "\<forall>w \<in> set (next1 @ ns). lab h' w = enat (Suc c)"
    using nx by (auto simp: labs)
  have td': "\<forall>w \<in> set todo1. lab h' w = enat c"
  proof
    fix w assume w: "w \<in> set todo1"
    with td todo have "lab h w = enat c" by simp
    with fr have "w \<notin> set ns" by auto
    with \<open>lab h w = enat c\<close> show "lab h' w = enat c" by (simp add: labs)
  qed
  have A'': "\<forall>v<length h'. (lab h' v \<noteq> \<infinity>) = (v \<in> set seen2)" using A' len' by simp
  show ?thesis
  proof (cases "todo1 = []")
    case False
    have q1: "q' = todo1 @ (next1 @ ns)" by (simp add: q' q)
    have D1: "prev @ remaining h0 k c seen ((done @ [cur]) @ todo1) = dequeueOrder h0 r k"
      using D todo by simp
    have F1: "k < c \<longrightarrow> done @ [cur] = []" using ck by simp
    have E1: "todo1 = [] \<longrightarrow> q' = []" using False by simp
    show ?thesis
      unfolding ordInv_def using ex' A'' q1 nx' acc' td' D1 F1 E1 by blast
  next
    case True
    have e2: "expand h0 [] (seen2, []) = (seen2, [])" by (simp add: expand_Nil)
    have q2: "q' = (next1 @ ns) @ []" using True by (simp add: q' q)
    have nx2: "\<forall>w \<in> set []. lab h' w = enat (Suc (Suc c))" by simp
    have acc2: "accepted sg' = (prev @ done @ [cur]) @ []" using acc' by simp
    have D2: "(prev @ done @ [cur]) @ remaining h0 k (Suc c) seen2 ([] @ (next1 @ ns))
        = dequeueOrder h0 r k"
    proof (cases "c = k")
      case True
      then show ?thesis using D todo \<open>todo1 = []\<close> by (simp add: remaining_def)
    next
      case False
      with ck obtain m where m: "k - c = Suc m" "k - Suc c = m" "Suc c \<le> k"
        by (cases "k - c") auto
      have "remaining h0 k c seen (done @ [cur]) =
          (done @ [cur]) @ remaining h0 k (Suc c) seen2 (next1 @ ns)"
        using ck m by (simp add: remaining_def ex')
      with D todo \<open>todo1 = []\<close> show ?thesis by simp
    qed
    have F2: "k < Suc c \<longrightarrow> ([]::ref list) = []" by simp
    have E2: "next1 @ ns = [] \<longrightarrow> q' = []" using q2 by simp
    show ?thesis
      unfolding ordInv_def using e2 A'' q2 nx2 acc2 nx' D2 F2 E2 by blast
  qed
qed

lemma ordInv_final:
  assumes ord: "ordInv h0 r k hf qf sgf"
    and fin: "qf = [] \<or> enat k < lab hf (hd qf)"
  shows "accepted sgf = dequeueOrder h0 r k"
proof -
  from ord obtain c seen prev "done" todo seen1 next1 where
    ex: "expand h0 done (seen, []) = (seen1, next1)" and
    qq: "qf = todo @ next1" and
    acc: "accepted sgf = prev @ done" and
    td: "\<forall>w \<in> set todo. lab hf w = enat c" and
    D: "prev @ remaining h0 k c seen (done @ todo) = dequeueOrder h0 r k" and
    F: "k < c \<longrightarrow> done = []" and
    E: "todo = [] \<longrightarrow> qf = []"
    unfolding ordInv_def by blast
  show ?thesis
  proof (cases "qf = []")
    case True
    with qq have t: "todo = []" "next1 = []" by simp_all
    show ?thesis
    proof (cases "k < c")
      case True
      with F D t show ?thesis by (simp add: acc remaining_def)
    next
      case False
      then have ck: "c \<le> k" by simp
      show ?thesis
      proof (cases "k - c")
        case 0
        with D t ck show ?thesis by (simp add: acc remaining_def)
      next
        case (Suc m)
        with D t ck ex show ?thesis by (simp add: acc remaining_def bfsLevels_Nil)
      qed
    qed
  next
    case False
    with fin have b: "enat k < lab hf (hd qf)" by simp
    from False E have "todo \<noteq> []" by auto
    then have "hd qf = hd todo" "hd todo \<in> set todo" using qq by simp_all
    with td b have kc: "k < c" by simp
    with F D show ?thesis by (simp add: acc remaining_def)
  qed
qed

lemma order_result:
  assumes ids: "distinct (map node_id h)" and cl: "closedHeap h" and r: "r < length h"
    and res: "bfs k es (h[r := (h ! r)\<lparr>node_distance := 0\<rparr>], [r], new_Graph True, 0, 0)
                = (hf, sgf, nc, ec)"
  shows "accepted sgf = dequeueOrder h r k"
proof -
  let ?I = "\<lambda>h1 q sg nc ec. idxInv h h1 q sg nc ec \<and> ordInv h r k h1 q sg"
  have init: "?I (h[r := (h ! r)\<lparr>node_distance := 0\<rparr>]) [r] (new_Graph True) 0 0"
    using idxInv_init [OF r] ordInv_init [OF r] by blast
  have "\<exists>qf. ?I hf qf sgf nc ec \<and> (qf = [] \<or> enat k < lab hf (hd qf))"
  proof (rule bfs_invariant [where I = ?I, OF init res])
    fix h1 cur q sg nc ec h' q' sg' ec'
    assume I: "idxInv h h1 (cur # q) sg nc ec \<and> ordInv h r k h1 (cur # q) sg"
      and le: "\<not> enat k < lab h1 cur"
      and f: "fold (visitItem es cur) (adjacentSet (h1 ! cur)) (h1, q, acceptNode h1 sg cur nc, ec)
         = (h', q', sg', ec')"
    from I have i: "idxInv h h1 (cur # q) sg nc ec" and ord: "ordInv h r k h1 (cur # q) sg"
      by simp_all
    show "idxInv h h' q' sg' (nc + 1) ec' \<and> ordInv h r k h' q' sg'"
      using idxInv_step [OF ids i le f] ordInv_step [OF ids cl i ord le f] by simp
  qed
  then obtain qf where "ordInv h r k hf qf sgf" "qf = [] \<or> enat k < lab hf (hd qf)" by blast
  then show ?thesis by (rule ordInv_final)
qed

lemma generateSubGraph_root:
  assumes "generateSubGraph h g sid numHops = Inr (h', sg)"
  shows "\<exists>r sgf nc ec. rootNode h g sid = Some r \<and>
           bfs (hopsOf numHops) (edges g)
             (h[r := (h ! r)\<lparr>node_distance := 0\<rparr>], [r], new_Graph True, 0, 0) = (h', sgf, nc, ec) \<and>
           sg = sgf\<lparr>edgeNodeIndex := buildEdgeNodeIndex h' sgf, numberOfNodes := nc,
                      numberOfEdges := ec\<rparr>"
proof -
  from assms obtain r where r: "rootNode h g sid = Some r"
    unfolding generateSubGraph_unfold rootNode_def
    by (cases "case (case sid of None \<Rightarrow> defaultStartNodeID h g | Some s \<Rightarrow> Some s) of
                 None \<Rightarrow> None | Some s \<Rightarrow> Map_get (nodes g) s") simp_all
  obtain hf sgf nc ec where res: "bfs (hopsOf numHops) (edges g)
      (h[r := (h ! r)\<lparr>node_distance := 0\<rparr>], [r], new_Graph True, 0, 0) = (hf, sgf, nc, ec)"
    by (metis prod_cases4)
  from assms r have "h' = hf \<and> sg = sgf\<lparr>edgeNodeIndex := buildEdgeNodeIndex hf sgf,
      numberOfNodes := nc, numberOfEdges := ec\<rparr>"
    unfolding generateSubGraph_unfold rootNode_def by (auto simp add: res simp del: bfs.simps)
  with r res show ?thesis by blast
qed

lemma rootNode_in_heap:
  assumes "closed h g" and "rootNode h g sid = Some r"
  shows "r < length h"
proof -
  from assms(2) obtain s where "Map_get (nodes g) s = Some r"
    unfolding rootNode_def by (auto split: option.splits)
  with assms(1) show ?thesis by (rule node_in_heap)
qed

subsection \<open>The examples are well formed\<close>

lemma example_call:
  "generateSubGraph example_heap example_graph (Some ''A'') (Some 1) =
     Inr (stale_heap, example_subgraph)"
  by (simp add: stale_heap_def example_subgraph_def generateSubGraph_def example_heap_def
      example_graph_def addAdjacentNode_def new_GraphNode_def Set_add_def addEdge_def
      addNodes_def addNode_def new_Graph_def new_GraphEdge_def Map_has_def Map_get_def
      Map_set_def resetDistance_def for_in_keys_def visitItem_def acceptNode_def
      getEdgeIDFromNodes_def buildEdgeNodeIndex_def Map_values_def one_enat_def zero_enat_def)

lemma example_closed: "closed example_heap example_graph"
  unfolding closed_def closedHeap_def by code_simp

lemma example_ids: "distinct (map node_id example_heap)"
  by code_simp

lemma example_wf: "edgesWf (edges example_graph)"
  unfolding edgesWf_def by code_simp

lemma example_fresh: "\<forall>n \<in> set example_heap. node_distance n = \<infinity>"
  by code_simp

lemma path_closed: "closed path_heap path_graph"
  unfolding closed_def closedHeap_def by code_simp

lemma path_ids: "distinct (map node_id path_heap)"
  by code_simp

lemma path_wf: "edgesWf (edges path_graph)"
  unfolding edgesWf_def by code_simp

lemma path_fresh: "\<forall>n \<in> set path_heap. node_distance n = \<infinity>"
  by code_simp

lemma path_call_Y:
  "\<exists>h' sg. generateSubGraph path_heap path_graph (Some ''Y'') (Some 1) = Inr (h', sg) \<and>
     nodeIndexMap sg = [(''Y'', 0), (''X'', 1), (''Z'', 2)] \<and>
     nodeMap sg = [(0, 1), (1, 0), (2, 2)] \<and>
     edgeIndexMap sg = [(''X_Y'', 0), (''Y_Z'', 1)]"
  by (simp add: generateSubGraph_def path_heap_def path_graph_def
      addAdjacentNode_def new_GraphNode_def Set_add_def addEdge_def addNodes_def addNode_def
      new_Graph_def new_GraphEdge_def Map_has_def Map_get_def Map_set_def resetDistance_def
      for_in_keys_def visitItem_def acceptNode_def getEdgeIDFromNodes_def
      buildEdgeNodeIndex_def Map_values_def one_enat_def zero_enat_def)

lemma path_order_Y: "dequeueOrder path_heap 1 1 = [1, 0, 2]"
  by code_simp

subsection \<open>Index maps\<close>

text \<open>
  C9, amended. In a closed store in which no two node objects have the same id, every
  subgraph that \<open>generateSubGraph\<close> returns, whatever the seed, the radius and the
  distances found in the store, has its indices laid out densely and in the order of
  dequeuing: \<open>nodeMap\<close> lists the indices \<open>0..n-1\<close>, and the node at index \<open>i\<close> is the
  \<open>i\<close>-th node of the breadth-first order from the root, level by level and each
  adjacency set in insertion order; \<open>nodeIndexMap\<close> gives each accepted node's id the
  index of that position, so its values are \<open>0..n-1\<close> with no gap and its keys are
  distinct, and \<open>n = numberOfNodes\<close> is the number of nodes; likewise the values of
  \<open>edgeIndexMap\<close> are \<open>0..m-1\<close> in the order of filing, its keys are distinct, and
  \<open>m = numberOfEdges\<close> is the number of edges.
\<close>

theorem subgraph_index_maps_dense_in_dequeue_order:
  assumes "closed h this" and "distinct (map node_id h)"
    and "generateSubGraph h this startNodeID numHops = Inr (h', sg)"
  shows "\<exists>root. rootNode h this startNodeID = Some root \<and>
         map snd (nodeMap sg) = dequeueOrder h root (hopsOf numHops) \<and>
         map fst (nodeMap sg) = [0..<numberOfNodes sg] \<and>
         nodeIndexMap sg = map (\<lambda>(index, node). (node_id (h ! node), index)) (nodeMap sg) \<and>
         map snd (nodeIndexMap sg) = [0..<numberOfNodes sg] \<and>
         distinct (map fst (nodeIndexMap sg)) \<and>
         length (nodes sg) = numberOfNodes sg \<and>
         map snd (edgeIndexMap sg) = [0..<numberOfEdges sg] \<and>
         distinct (map fst (edgeIndexMap sg)) \<and>
         length (edges sg) = numberOfEdges sg"
proof -
  from generateSubGraph_root [OF assms(3)] obtain r sgf nc ec where
    s: "rootNode h this startNodeID = Some r" and
    res: "bfs (hopsOf numHops) (edges this)
             (h[r := (h ! r)\<lparr>node_distance := 0\<rparr>], [r], new_Graph True, 0, 0) = (h', sgf, nc, ec)" and
    sg: "sg = sgf\<lparr>edgeNodeIndex := buildEdgeNodeIndex h' sgf, numberOfNodes := nc,
                      numberOfEdges := ec\<rparr>"
    by blast
  have r: "r < length h" using assms(1) s by (rule rootNode_in_heap)
  from assms(1) have cl: "closedHeap h" by (simp add: closed_def)
  from order_result [OF assms(2) cl r res]
  have ord: "map snd (nodeMap sgf) = dequeueOrder h r (hopsOf numHops)"
    by (simp add: accepted_def)
  from index_result [OF assms(2) r res] obtain qf where i: "idxInv h h' qf sgf nc ec" by blast
  then have ei: "edgeInv sgf ec" and nm: "map fst (nodeMap sgf) = [0..<nc]"
    and nim: "nodeIndexMap sgf = map (\<lambda>(i, r). (node_id (h ! r), i)) (nodeMap sgf)"
    by (simp_all add: idxInv_def)
  from ei have "map snd (edgeIndexMap sgf) = [0..<ec]" "distinct (map fst (edgeIndexMap sgf))"
    by (simp_all add: edgeInv_def)
  with s ord nm nim idxInv_index_values [OF i] idxInv_keys_distinct [OF assms(2) i]
    edgeInv_lengths(1) [OF ei]
  show ?thesis by (simp add: sg)
qed

text \<open>The theorem on the path X - Y - Z, from Y with one hop: Y, then X and Z.\<close>

theorem subgraph_index_maps_dense_in_dequeue_order_witness:
  "closed path_heap path_graph \<and> distinct (map node_id path_heap) \<and>
   (\<exists>h' sg. generateSubGraph path_heap path_graph (Some ''Y'') (Some 1) = Inr (h', sg) \<and>
      rootNode path_heap path_graph (Some ''Y'') = Some 1 \<and>
      dequeueOrder path_heap 1 (hopsOf (Some 1)) = [1, 0, 2] \<and>
      map snd (nodeMap sg) = dequeueOrder path_heap 1 (hopsOf (Some 1)) \<and>
      nodeIndexMap sg = [(''Y'', 0), (''X'', 1), (''Z'', 2)] \<and>
      map snd (nodeIndexMap sg) = [0..<numberOfNodes sg] \<and>
      edgeIndexMap sg = [(''X_Y'', 0), (''Y_Z'', 1)] \<and>
      map snd (edgeIndexMap sg) = [0..<numberOfEdges sg])"
proof -
  from path_call_Y obtain h' sg where
    c: "generateSubGraph path_heap path_graph (Some ''Y'') (Some 1) = Inr (h', sg)" and
    n: "nodeIndexMap sg = [(''Y'', 0), (''X'', 1), (''Z'', 2)]" and
    e: "edgeIndexMap sg = [(''X_Y'', 0), (''Y_Z'', 1)]"
    by blast
  have root: "rootNode path_heap path_graph (Some ''Y'') = Some 1" by code_simp
  have o: "dequeueOrder path_heap 1 (hopsOf (Some 1)) = [1, 0, 2]"
    using path_order_Y by (simp add: hopsOf_def)
  from subgraph_index_maps_dense_in_dequeue_order [OF path_closed path_ids c] root
  have "map snd (nodeMap sg) = dequeueOrder path_heap 1 (hopsOf (Some 1))"
    "map snd (nodeIndexMap sg) = [0..<numberOfNodes sg]"
    "map snd (edgeIndexMap sg) = [0..<numberOfEdges sg]"
    by auto
  with path_closed path_ids c root o n e show ?thesis by blast
qed

text \<open>
  C9 as stated fails when two node objects share an id: A has the two objects with id
  B in its adjacency set, the search accepts three nodes, and the second B overwrites
  the index of the first, so the indices assigned are 0 and 2 and \<open>numberOfNodes\<close> is 3.
\<close>

theorem subgraph_index_gap_counterexample:
  "map node_id twin_heap = [''A'', ''B'', ''B''] \<and>
   map adjacentSet twin_heap = [[1, 2], [], []] \<and>
   map fst (nodes twin_graph) = [''A'', ''B''] \<and>
   (\<exists>h sg. generateSubGraph twin_heap twin_graph (Some ''A'') (Some 1) = Inr (h, sg) \<and>
      nodeMap sg = [(0, 0), (1, 1), (2, 2)] \<and>
      nodeIndexMap sg = [(''A'', 0), (''B'', 2)] \<and>
      numberOfNodes sg = 3)"
  by (simp add: generateSubGraph_def twin_heap_def twin_graph_def
      addAdjacentNode_def new_GraphNode_def Set_add_def addEdge_def addNodes_def addNode_def
      new_Graph_def new_GraphEdge_def Map_has_def Map_get_def Map_set_def resetDistance_def
      for_in_keys_def visitItem_def acceptNode_def getEdgeIDFromNodes_def
      buildEdgeNodeIndex_def Map_values_def one_enat_def zero_enat_def)

subsection \<open>Nodes and edges of the subgraph\<close>

text \<open>
  C1, amended. In a closed store whose nodes have distinct ids and distance Infinity,
  with every edge filed under its id, \<open>generateSubGraph\<close> from the seed \<open>S\<close> returns,
  and the node set of the subgraph is exactly the set of nodes whose shortest-hop
  distance from the seed is at most \<open>numHops\<close>. Its edge set is exactly the set of
  parent edges found, under the key \<open>a_b\<close> or \<open>b_a\<close>, for a node \<open>a\<close> of that set and
  a member \<open>b\<close> of the adjacency set of \<open>a\<close>, whether or not \<open>b\<close> is in the node set.
\<close>

theorem subgraph_nodes_within_hops_edges_found:
  assumes "closed h this" and "distinct (map node_id h)"
    and "\<forall>n \<in> set h. node_distance n = \<infinity>"
    and "edgesWf (edges this)"
    and "Map_get (nodes this) S = Some r"
  shows "\<exists>h' sg. generateSubGraph h this (Some S) numHops = Inr (h', sg) \<and>
           set (nodes sg) = {(node_id (h ! v), v) | v. hopDistance h r v \<le> enat (hopsOf numHops)} \<and>
           set (Map_values (edges sg)) =
             {e. \<exists>a b. hopDistance h r a \<le> enat (hopsOf numHops) \<and> b \<in> set (adjacentSet (h ! a)) \<and>
                   getEdgeIDFromNodes (edges this) (h ! a) (h ! b) = Some e}"
proof -
  from assms(1) have cl: "closedHeap h" by (simp add: closed_def)
  have r: "r < length h" using assms(1,5) by (rule node_in_heap)
  obtain hf sgf nc ec where res: "bfs (hopsOf numHops) (edges this)
      (h[r := (h ! r)\<lparr>node_distance := 0\<rparr>], [r], new_Graph True, 0, 0) = (hf, sgf, nc, ec)"
    by (metis prod_cases4)
  let ?sg = "sgf\<lparr>edgeNodeIndex := buildEdgeNodeIndex hf sgf, numberOfNodes := nc,
                 numberOfEdges := ec\<rparr>"
  from search_result [OF assms(2) cl assms(4,3) r res] obtain qf where
    i: "idxInv h hf qf sgf nc ec" and e: "edgeSetInv (edges this) h sgf" and
    v: "set (accepted sgf) = {v. hopDistance h r v \<le> enat (hopsOf numHops)}" by blast
  have "generateSubGraph h this (Some S) numHops = Inr (hf, ?sg)"
    using assms(5) res by (rule generateSubGraph_seed)
  moreover have "set (nodes ?sg) =
      {(node_id (h ! v), v) | v. hopDistance h r v \<le> enat (hopsOf numHops)}"
    using idxInv_nodes_set [OF i] v by auto
  moreover have "set (Map_values (edges ?sg)) =
             {e. \<exists>a b. hopDistance h r a \<le> enat (hopsOf numHops) \<and> b \<in> set (adjacentSet (h ! a)) \<and>
                   getEdgeIDFromNodes (edges this) (h ! a) (h ! b) = Some e}"
    using edgeSetInv_edges [OF e] v by auto
  ultimately show ?thesis by blast
qed

text \<open>The theorem on the path X - Y - Z, from X with one hop.\<close>

theorem subgraph_nodes_within_hops_edges_found_witness:
  "closed path_heap path_graph \<and> distinct (map node_id path_heap) \<and>
   map node_distance path_heap = [\<infinity>, \<infinity>, \<infinity>] \<and> edgesWf (edges path_graph) \<and>
   Map_get (nodes path_graph) ''X'' = Some 0 \<and>
   (\<exists>h' sg. generateSubGraph path_heap path_graph (Some ''X'') (Some 1) = Inr (h', sg) \<and>
      set (nodes sg) =
        {(node_id (path_heap ! v), v) | v. hopDistance path_heap 0 v \<le> enat (hopsOf (Some 1))} \<and>
      set (Map_values (edges sg)) =
        {e. \<exists>a b. hopDistance path_heap 0 a \<le> enat (hopsOf (Some 1)) \<and>
           b \<in> set (adjacentSet (path_heap ! a)) \<and>
           getEdgeIDFromNodes (edges path_graph) (path_heap ! a) (path_heap ! b) = Some e})"
proof -
  have s: "Map_get (nodes path_graph) ''X'' = Some 0" by code_simp
  have d: "map node_distance path_heap = [\<infinity>, \<infinity>, \<infinity>]" by code_simp
  from subgraph_nodes_within_hops_edges_found [OF path_closed path_ids path_fresh path_wf s]
    path_closed path_ids d path_wf s
  show ?thesis by blast
qed

text \<open>
  C2, amended. Under the same hypotheses, \<open>generateSubGraph\<close> from the seed \<open>S\<close> with
  \<open>numHops = 0\<close> returns a subgraph whose node set is exactly the seed. Its edges are
  exactly the parent edges found for the seed and a member of its adjacency set, and
  \<open>numberOfEdges\<close> is their number: zero only when the seed has no such edge.
\<close>

theorem zero_hops_subgraph_seed_and_its_edges:
  assumes "closed h this" and "distinct (map node_id h)"
    and "\<forall>n \<in> set h. node_distance n = \<infinity>"
    and "edgesWf (edges this)"
    and "Map_get (nodes this) S = Some r"
  shows "\<exists>h' sg. generateSubGraph h this (Some S) (Some 0) = Inr (h', sg) \<and>
           nodes sg = [(node_id (h ! r), r)] \<and> numberOfNodes sg = 1 \<and>
           set (Map_values (edges sg)) =
             {e. \<exists>b. b \<in> set (adjacentSet (h ! r)) \<and>
                   getEdgeIDFromNodes (edges this) (h ! r) (h ! b) = Some e} \<and>
           numberOfEdges sg =
             card {e. \<exists>b. b \<in> set (adjacentSet (h ! r)) \<and>
                   getEdgeIDFromNodes (edges this) (h ! r) (h ! b) = Some e}"
proof -
  let ?E = "{e. \<exists>b. b \<in> set (adjacentSet (h ! r)) \<and>
                   getEdgeIDFromNodes (edges this) (h ! r) (h ! b) = Some e}"
  from assms(1) have cl: "closedHeap h" by (simp add: closed_def)
  have r: "r < length h" using assms(1,5) by (rule node_in_heap)
  obtain hf sgf nc ec where res: "bfs (hopsOf (Some 0)) (edges this)
      (h[r := (h ! r)\<lparr>node_distance := 0\<rparr>], [r], new_Graph True, 0, 0) = (hf, sgf, nc, ec)"
    by (metis prod_cases4)
  let ?sg = "sgf\<lparr>edgeNodeIndex := buildEdgeNodeIndex hf sgf, numberOfNodes := nc,
                 numberOfEdges := ec\<rparr>"
  from search_result [OF assms(2) cl assms(4,3) r res] obtain qf where
    i: "idxInv h hf qf sgf nc ec" and e: "edgeSetInv (edges this) h sgf" and
    v: "set (accepted sgf) = {v. hopDistance h r v \<le> enat (hopsOf (Some 0))}" by blast
  have call: "generateSubGraph h this (Some S) (Some 0) = Inr (hf, ?sg)"
    using assms(5) res by (rule generateSubGraph_seed)
  from v have vs: "set (accepted sgf) = {r}" by (simp add: hopsOf_def within_zero)
  from idxInvD(5) [OF i] have "distinct (accepted sgf)" by simp
  with vs have acc: "accepted sgf = [r]"
  proof (cases "accepted sgf")
    case Nil
    with vs show ?thesis by simp
  next
    case (Cons a as)
    with vs have a: "a = r" "set as \<subseteq> {r}" by auto
    from Cons \<open>distinct (accepted sgf)\<close> a have "as = []" by (cases as) auto
    with Cons a show ?thesis by simp
  qed
  then have "length (map snd (nodeMap sgf)) = 1" by (simp add: accepted_def)
  then have len: "length (nodeMap sgf) = 1" by simp
  from idxInvD(2) [OF i] have "length (nodeMap sgf) = nc"
    by (metis length_map length_upt minus_nat.diff_0)
  with len have nc: "nc = 1" by simp
  with idxInvD(2) [OF i] acc have nm: "nodeMap sgf = [(0, r)]"
    by (cases "nodeMap sgf") (auto simp: accepted_def)
  have nodes: "nodes ?sg = [(node_id (h ! r), r)]"
    using idxInvD(4) [OF i] nm by simp
  have es: "set (Map_values (edges ?sg)) = ?E"
    using edgeSetInv_edges [OF e] vs by auto
  have "ec = length (map snd (edges sgf))"
    using edgeInv_lengths(1) [OF idxInvD(7) [OF i]] by simp
  also have "\<dots> = card (set (map snd (edges sgf)))"
    using distinct_card [OF edgeInv_lengths(2) [OF idxInvD(7) [OF i]]] by simp
  also have "\<dots> = card ?E" using es by (simp add: Map_values_def)
  finally have ne: "numberOfEdges ?sg = card ?E" by simp
  have n1: "numberOfNodes ?sg = 1" using nc by simp
  show ?thesis
  proof (intro exI conjI)
    show "generateSubGraph h this (Some S) (Some 0) = Inr (hf, ?sg)" by (rule call)
    show "nodes ?sg = [(node_id (h ! r), r)]" by (rule nodes)
    show "numberOfNodes ?sg = 1" by (rule n1)
    show "set (Map_values (edges ?sg)) = ?E" by (rule es)
    show "numberOfEdges ?sg = card ?E" by (rule ne)
  qed
qed

text \<open>The theorem at the specification's example, from A.\<close>

theorem zero_hops_subgraph_seed_and_its_edges_witness:
  "closed example_heap example_graph \<and> distinct (map node_id example_heap) \<and>
   map node_distance example_heap = [\<infinity>, \<infinity>, \<infinity>] \<and> edgesWf (edges example_graph) \<and>
   Map_get (nodes example_graph) ''A'' = Some 0 \<and>
   (\<exists>h' sg. generateSubGraph example_heap example_graph (Some ''A'') (Some 0) = Inr (h', sg) \<and>
      nodes sg = [(node_id (example_heap ! 0), 0)] \<and> numberOfNodes sg = 1 \<and>
      numberOfEdges sg =
        card {e. \<exists>b. b \<in> set (adjacentSet (example_heap ! 0)) \<and>
          getEdgeIDFromNodes (edges example_graph) (example_heap ! 0) (example_heap ! b) = Some e})"
proof -
  have s: "Map_get (nodes example_graph) ''A'' = Some 0" by code_simp
  have d: "map node_distance example_heap = [\<infinity>, \<infinity>, \<infinity>]" by code_simp
  from zero_hops_subgraph_seed_and_its_edges
    [OF example_closed example_ids example_fresh example_wf s]
  have "\<exists>h' sg. generateSubGraph example_heap example_graph (Some ''A'') (Some 0) = Inr (h', sg) \<and>
      nodes sg = [(node_id (example_heap ! 0), 0)] \<and> numberOfNodes sg = 1 \<and>
      numberOfEdges sg =
        card {e. \<exists>b. b \<in> set (adjacentSet (example_heap ! 0)) \<and>
          getEdgeIDFromNodes (edges example_graph) (example_heap ! 0) (example_heap ! b) = Some e}"
    by blast
  with example_closed example_ids d example_wf s show ?thesis by blast
qed

section \<open>Rounding to a double\<close>

text \<open>
  What the proofs use of \<open>round64\<close>: zero is exact, a finite result is within
  \<open>u64 * \<bar>x\<bar> + eta64\<close> of the exact value \<open>x\<close>, and the result is finite when the
  exact value is far from the largest double.
\<close>

lemma round64_0: "round64 0 = Num 0"
  by (simp add: round64_def)

lemma round64_not_NaN: "round64 x \<noteq> NaN"
  by (simp add: round64_def Let_def)

lemma rne_error: "\<bar>of_int (rne t) - t\<bar> \<le> 1 / 2"
proof -
  have "of_int \<lfloor>t\<rfloor> \<le> t" "t < of_int \<lfloor>t\<rfloor> + 1" by linarith+
  then show ?thesis by (auto simp: rne_def Let_def)
qed

lemma round64_cases:
  assumes "x \<noteq> 0"
  shows "\<exists>y. \<bar>y - x\<bar> \<le> u64 * \<bar>x\<bar> + eta64 \<and>
     round64 x = (if 2 ^ 1024 \<le> \<bar>y\<bar> then (if 0 < x then PosInf else NegInf) else Num y)"
proof -
  define e where "e = max \<lfloor>log 2 \<bar>x\<bar>\<rfloor> (- 1022)"
  define q :: real where "q = 2 powr of_int (e - 52)"
  define y where "y = of_int (rne (x / q)) * q"
  have q: "0 < q" by (simp add: q_def)
  have r: "round64 x = (if 2 ^ 1024 \<le> \<bar>y\<bar> then (if 0 < x then PosInf else NegInf) else Num y)"
    using assms by (simp add: round64_def Let_def e_def q_def y_def)
  have "\<bar>y - x\<bar> = \<bar>of_int (rne (x / q)) - x / q\<bar> * q"
  proof -
    have "y - x = (of_int (rne (x / q)) - x / q) * q" using q by (simp add: y_def field_simps)
    then show ?thesis using q by (simp add: abs_mult)
  qed
  also have "\<dots> \<le> 1 / 2 * q" using rne_error [of "x / q"] q by (intro mult_right_mono) simp_all
  finally have b: "\<bar>y - x\<bar> \<le> q / 2" by simp
  have half: "q / 2 = 2 powr of_int (e - 53)"
  proof -
    have "(2::real) powr of_int (e - 53) = 2 powr (of_int (e - 52) + (- 1))" by simp
    also have "\<dots> = 2 powr of_int (e - 52) * 2 powr (- 1)" by (rule powr_add)
    also have "\<dots> = q / 2" by (simp add: q_def powr_minus)
    finally show ?thesis by simp
  qed
  have "\<bar>y - x\<bar> \<le> u64 * \<bar>x\<bar> + eta64"
  proof (cases "- 1022 \<le> \<lfloor>log 2 \<bar>x\<bar>\<rfloor>")
    case True
    then have e: "e = \<lfloor>log 2 \<bar>x\<bar>\<rfloor>" by (simp add: e_def)
    have "(2::real) powr of_int (e - 53) = 2 powr (of_int e + (- 53))" by simp
    also have "\<dots> = 2 powr of_int e * u64" unfolding u64_def by (rule powr_add)
    also have "2 powr of_int e \<le> 2 powr (log 2 \<bar>x\<bar>)"
      unfolding e by (intro powr_mono) simp_all
    then have "2 powr of_int e * u64 \<le> 2 powr (log 2 \<bar>x\<bar>) * u64"
      by (intro mult_right_mono) (simp_all add: u64_def)
    also have "2 powr (log 2 \<bar>x\<bar>) = \<bar>x\<bar>" using assms by simp
    finally have "q / 2 \<le> \<bar>x\<bar> * u64" unfolding half .
    with b have "\<bar>y - x\<bar> \<le> u64 * \<bar>x\<bar>" by (simp add: mult.commute)
    moreover have "0 \<le> eta64" by (simp add: eta64_def)
    ultimately show ?thesis by linarith
  next
    case False
    then have e: "e = - 1022" by (simp add: e_def)
    have "q / 2 = eta64" unfolding half e eta64_def by simp
    with b have "\<bar>y - x\<bar> \<le> eta64" by simp
    moreover have "0 \<le> u64 * \<bar>x\<bar>" by (simp add: u64_def)
    ultimately show ?thesis by linarith
  qed
  with r show ?thesis by blast
qed

lemma round64_error:
  assumes "round64 x = Num y"
  shows "\<bar>y - x\<bar> \<le> u64 * \<bar>x\<bar> + eta64"
proof (cases "x = 0")
  case True
  with assms have "y = 0" by (simp add: round64_def)
  with True show ?thesis by (simp add: u64_def eta64_def)
next
  case False
  from round64_cases [OF False] obtain z where
    z: "\<bar>z - x\<bar> \<le> u64 * \<bar>x\<bar> + eta64" and
    r: "round64 x = (if 2 ^ 1024 \<le> \<bar>z\<bar> then (if 0 < x then PosInf else NegInf) else Num z)"
    by blast
  from r assms have "z = y" by (simp split: if_splits)
  with z show ?thesis by simp
qed

lemma u64_bounds: "0 < u64" "u64 \<le> 1"
proof -
  show "0 < u64" by (simp add: u64_def)
  have "(2::real) powr (- 53) \<le> 2 powr 0" by (intro powr_mono) simp_all
  then show "u64 \<le> 1" by (simp add: u64_def)
qed

lemma eta64_bounds: "0 < eta64" "eta64 \<le> 1"
proof -
  show "0 < eta64" by (simp add: eta64_def)
  have "(2::real) powr (- 1075) \<le> 2 powr 0" by (intro powr_mono) simp_all
  then show "eta64 \<le> 1" by (simp add: eta64_def)
qed

lemma round64_finite:
  assumes "\<bar>x\<bar> \<le> 2 ^ 1000"
  shows "\<exists>y. round64 x = Num y"
proof (cases "x = 0")
  case True
  then show ?thesis by (simp add: round64_0)
next
  case False
  from round64_cases [OF False] obtain z where
    z: "\<bar>z - x\<bar> \<le> u64 * \<bar>x\<bar> + eta64" and
    r: "round64 x = (if 2 ^ 1024 \<le> \<bar>z\<bar> then (if 0 < x then PosInf else NegInf) else Num z)"
    by blast
  have "u64 * \<bar>x\<bar> \<le> 1 * \<bar>x\<bar>" using u64_bounds by (intro mult_right_mono) simp_all
  with z eta64_bounds have "\<bar>z\<bar> \<le> 2 * \<bar>x\<bar> + 1" by linarith
  also have "\<dots> \<le> 2 * 2 ^ 1000 + 1" using assms by simp
  also have "\<dots> < (2::real) ^ 1024"
  proof -
    have "(2::real) * 2 ^ 1000 + 1 \<le> 2 ^ 1001 + 2 ^ 1001" by simp
    also have "\<dots> = 2 ^ 1002" by simp
    also have "\<dots> < (2::real) ^ 1024" by (rule power_strict_increasing) simp_all
    finally show ?thesis .
  qed
  finally have "\<not> 2 ^ 1024 \<le> \<bar>z\<bar>" by simp
  with r show ?thesis by simp
qed

text \<open>A result below half the smallest subnormal underflows to zero, and a power of
  two in the range of the exponents is a double.\<close>

lemma rne_small: "\<bar>t\<bar> < 1 / 2 \<Longrightarrow> rne t = 0"
proof -
  assume a: "\<bar>t\<bar> < 1 / 2"
  show ?thesis
  proof (cases "0 \<le> t")
    case True
    with a have "\<lfloor>t\<rfloor> = 0" by (intro floor_unique) simp_all
    with a True show ?thesis by (simp add: rne_def)
  next
    case False
    with a have f: "\<lfloor>t\<rfloor> = - 1" by (intro floor_unique) simp_all
    from a False have "1 / 2 < t - of_int (- 1 :: int)" by simp
    then show ?thesis unfolding rne_def Let_def f by simp
  qed
qed

lemma rne_int: "rne (of_int n) = n"
  by (simp add: rne_def)

lemma round64_underflow:
  assumes "\<bar>x\<bar> < 2 powr (- 1075)"
  shows "round64 x = Num 0"
proof (cases "x = 0")
  case True
  then show ?thesis by (simp add: round64_def)
next
  case False
  then have pos: "0 < \<bar>x\<bar>" by simp
  have "log 2 \<bar>x\<bar> < - 1075"
    using assms pos by (simp add: log_less_iff)
  then have "\<lfloor>log 2 \<bar>x\<bar>\<rfloor> < - 1022" by linarith
  then have e: "max \<lfloor>log 2 \<bar>x\<bar>\<rfloor> (- 1022) = - 1022" by simp
  have q: "(2::real) powr (- 1075) = 2 powr (- 1074) / 2"
    by (simp add: powr_diff [of 2 "- 1074" 1, simplified])
  have "\<bar>x / 2 powr (- 1074)\<bar> = \<bar>x\<bar> / 2 powr (- 1074)" by simp
  also have "\<dots> < 1 / 2" using assms unfolding q by (simp add: field_simps)
  finally have "rne (x / 2 powr (- 1074)) = 0" by (rule rne_small)
  then show ?thesis using False unfolding round64_def Let_def e by simp
qed

lemma round64_pow2:
  assumes "- 1022 \<le> e" and "e \<le> 1023" and "s = 1 \<or> s = - 1"
  shows "round64 (of_int s * 2 powr of_int e) = Num (of_int s * 2 powr of_int e)"
proof -
  let ?x = "of_int s * 2 powr of_int e :: real"
  have ax: "\<bar>?x\<bar> = 2 powr of_int e" using assms(3) by auto
  have ne: "?x \<noteq> 0" using assms(3) by auto
  have l: "\<lfloor>log 2 \<bar>?x\<bar>\<rfloor> = e" unfolding ax by simp
  have m: "max e (- 1022) = e" using assms(1) by simp
  have "?x / 2 powr of_int (e - 52) = of_int s * (2 powr of_int e / 2 powr of_int (e - 52))"
    by simp
  also have "2 powr of_int e / 2 powr of_int (e - 52) = (2::real) powr 52"
    by (simp add: powr_diff [symmetric])
  also have "(2::real) powr 52 = of_int (2 ^ 52)" by (simp add: powr_numeral)
  finally have d: "?x / 2 powr of_int (e - 52) = of_int (s * 2 ^ 52)" by simp
  have qpos: "(2::real) powr of_int (e - 52) \<noteq> 0" by simp
  have y: "of_int (s * 2 ^ 52) * 2 powr of_int (e - 52) = ?x"
  proof -
    have g: "a / b * b = a" if "b \<noteq> 0" for a b :: real using that by simp
    show ?thesis unfolding d [symmetric] by (rule g [OF qpos])
  qed
  have "(2::real) powr of_int e < 2 powr 1024"
    by (rule powr_less_mono) (use assms(2) in simp_all)
  also have "(2::real) powr 1024 = 2 ^ 1024" by (simp add: powr_numeral)
  finally have b: "\<not> 2 ^ 1024 \<le> \<bar>?x\<bar>" unfolding ax by simp
  show ?thesis
    unfolding round64_def Let_def l m d rne_int y using ne b by simp
qed

section \<open>The layout: mass and edge positions\<close>

lemma round64_tenth: "round64 (3 / 10) \<noteq> Num 6"
proof
  assume "round64 (3 / 10) = Num 6"
  from round64_error [OF this] have "\<bar>6 - 3 / 10\<bar> \<le> u64 * \<bar>3 / 10\<bar> + eta64" .
  moreover have "u64 * \<bar>3 / 10\<bar> \<le> 1 * \<bar>3 / 10\<bar>"
    using u64_bounds by (intro mult_right_mono) simp_all
  ultimately show False using eta64_bounds by simp
qed

text \<open>
  C6. The claim is that a node tagged \<open>device\<close> gets the mass \<open>degree * 2\<close>.
  \<open>_initializeNodeMass\<close> tests \<open>node.type\<close>, which is undefined on every node (the tag
  is \<open>node.attributes.type\<close>, as \<open>_initializeNodeColor\<close> reads it), so every node gets
  \<open>degree / 10\<close>: the device of degree 3 gets the double nearest 3/10, not 6.
\<close>

theorem initializeNodeMass_device_is_tenth:
  "attributes_type (device_heap ! 0) = ''device'' \<and> degree (device_heap ! 0) = 3 \<and>
   initializeNodeMass (device_heap ! 0) 0 = round64 (3 / 10) \<and>
   initializeNodeMass (device_heap ! 0) 0 \<noteq> Num 6"
  by (simp add: device_heap_def addAdjacentNode_def new_GraphNode_def initializeNodeMass_def
      node_type_def Set_add_def round64_tenth)

lemma initializeNodeMass_any:
  "initializeNodeMass node index = jdiv (Num (real (degree node))) (Num 10)"
  by (simp add: initializeNodeMass_def node_type_def)

lemma processNodeInteractions_edgePosition:
  "edgePosition (snd (processNodeInteractions l)) = edgePosition l"
  by (simp add: processNodeInteractions_def Let_def split: prod.splits option.splits)

lemma calculateAcceleration_edgePosition:
  "edgePosition (snd (calculateAcceleration g l)) = edgePosition l"
proof -
  obtain e l1 where p: "processNodeInteractions l = (e, l1)"
    by (cases "processNodeInteractions l")
  with processNodeInteractions_edgePosition [of l] have "edgePosition l1 = edgePosition l"
    by simp
  with p show ?thesis
    by (cases e) (simp_all add: calculateAcceleration_def processEdgeInteractions_def Let_def)
qed

lemma step_edgePosition: "edgePosition (snd (step g l)) = edgePosition l"
proof -
  obtain e l1 where c: "calculateAcceleration g (anneal l) = (e, l1)"
    by (cases "calculateAcceleration g (anneal l)")
  have "edgePosition (anneal l) = edgePosition l" by (simp add: anneal_def)
  with calculateAcceleration_edgePosition [of g "anneal l"] c
  have l1: "edgePosition l1 = edgePosition l" by simp
  show ?thesis
    unfolding step_def c using l1
    by (cases e) (simp_all add: Let_def split: prod.splits option.splits)
qed

lemma steps_edgePosition: "edgePosition (steps g n l) = edgePosition l"
  by (induction n) (simp_all add: steps_def step_edgePosition)

lemma new_edgePosition: "edgePosition (new_GraphLayoutForceDirected h g dofs rnd) = [None]"
  by (simp add: new_GraphLayoutForceDirected_def Let_def new_Array_def split: prod.splits)

text \<open>
  C10. Whatever the graph, its edge count, the store, \<open>dof\<close> and the random samples,
  the \<open>edgePosition\<close> array of a new layout is \<open>[undefined]\<close>, of length 1. A call of
  \<open>step\<close>, whether it returns or throws, leaves the array of any layout as it was, and
  so does any number of calls: \<open>getEdgePosition\<close> returns the same one-element array
  after every sequence of steps.
\<close>

theorem edgePosition_length_one_and_unchanged:
  "length (getEdgePosition (new_GraphLayoutForceDirected h graph dofs rnd)) = 1 \<and>
   getEdgePosition (snd (step g l)) = getEdgePosition l \<and>
   getEdgePosition (steps g n l) = getEdgePosition l \<and>
   getEdgePosition (steps g n (new_GraphLayoutForceDirected h graph dofs rnd)) = [None]"
  by (simp add: getEdgePosition_def step_edgePosition steps_edgePosition new_edgePosition)

section \<open>The layout: directions of a pair\<close>

subsection \<open>The loops of \<open>_xtod\<close>\<close>

text \<open>On a position array without holes \<open>_L2\<close> returns the rounded sum of the rounded
  squares, and each pass of the loops of \<open>_xtod\<close> writes the two slots of its pair
  and axis and no other.\<close>

lemma foldX_append:
  "foldX f (xs @ ys) s =
     (case foldX f xs s of (Some e, s') \<Rightarrow> (Some e, s') | (None, s') \<Rightarrow> foldX f ys s')"
  by (induction xs arbitrary: s) (auto split: prod.splits option.splits)

lemma foldX_snoc:
  "foldX f xs s = (None, s') \<Longrightarrow> foldX f (xs @ [x]) s = f x s'"
  by (simp add: foldX_append split: prod.splits option.splits)

lemma jmat_get: "i < N \<Longrightarrow> Array_get (jmat N dofs P) i = Some (map (P i) [0..<dofs])"
  by (simp add: Array_get_def jmat_def)

lemma row_get_map: "k < dofs \<Longrightarrow> row_get (map R [0..<dofs]) k = R k"
  by (simp add: row_get_def)

lemma L2_loop:
  assumes "n \<le> dofs"
  shows "foldX (L2_step (map R [0..<dofs]) (Some (map Q [0..<dofs]))) [0..<n] (Num 0) =
     (None, fold (\<lambda>d s. jadd s (jmul (jsub (R d) (Q d)) (jsub (R d) (Q d)))) [0..<n] (Num 0))"
  using assms
proof (induction n)
  case 0
  then show ?case by simp
next
  case (Suc n)
  then have IH: "foldX (L2_step (map R [0..<dofs]) (Some (map Q [0..<dofs]))) [0..<n] (Num 0) =
     (None, fold (\<lambda>d s. jadd s (jmul (jsub (R d) (Q d)) (jsub (R d) (Q d)))) [0..<n] (Num 0))"
    by simp
  from Suc.prems have n: "n < dofs" by simp
  have u: "[0..<Suc n] = [0..<n] @ [n]" by simp
  show ?case
    unfolding u foldX_snoc [OF IH] fold_append comp_apply
    by (simp add: L2_step_def row_get_map [OF n] Let_def)
qed

lemma L2_jmat:
  assumes "i < N" "j < N"
  shows "L2 (Array_get (jmat N dofs P) i) (Array_get (jmat N dofs P) j) = Inr (sqDist dofs P i j)"
  using L2_loop [where n = dofs and dofs = dofs and R = "P i" and Q = "P j"]
  by (simp add: L2_def jmat_get assms sqDist_def)

lemma sqDist_coincident:
  assumes "\<forall>d<dofs. \<exists>x. P i d = Num x \<and> P j d = Num x"
  shows "sqDist dofs P i j = Num 0"
proof -
  have "n \<le> dofs \<Longrightarrow>
    fold (\<lambda>d s. jadd s (jmul (jsub (P i d) (P j d)) (jsub (P i d) (P j d)))) [0..<n] (Num 0) = Num 0"
    for n
  proof (induction n)
    case 0
    then show ?case by simp
  next
    case (Suc n)
    then have n: "n < dofs" by simp
    with assms obtain x where x: "P i n = Num x" "P j n = Num x" by blast
    have u: "[0..<Suc n] = [0..<n] @ [n]" by simp
    from Suc show ?case
      unfolding u fold_append comp_apply by (simp add: x jsub_def round64_0)
  qed
  then show ?thesis by (simp add: sqDist_def)
qed

lemma unitDir_coincident:
  assumes "\<forall>d<dofs. \<exists>x. P i d = Num x \<and> P j d = Num x" and "k < dofs"
  shows "unitDir dofs P i j k = NaN"
proof -
  from assms obtain x where x: "P i k = Num x" "P j k = Num x" by blast
  show ?thesis
    unfolding unitDir_def sqDist_coincident [OF assms(1)]
    by (simp add: x jsub_def round64_0)
qed

lemma slot_alt: "slot N dofs a b k = (a * N + b) * dofs + k"
  by (simp add: slot_def algebra_simps)

lemma pair_lt: "(x::nat) < m \<Longrightarrow> k < d \<Longrightarrow> x * d + k < m * d"
proof -
  assume x: "x < m" and k: "k < d"
  have "x * d + k < x * d + d" using k by simp
  also have "\<dots> = Suc x * d" by simp
  also have "\<dots> \<le> m * d" using x by (intro mult_le_mono1) simp
  finally show ?thesis .
qed

lemma pair_inj:
  assumes "(k::nat) < d" "k' < d" "x * d + k = x' * d + k'"
  shows "x = x' \<and> k = k'"
proof -
  have "(x * d + k) div d = x" "(x * d + k) mod d = k" using assms(1) by simp_all
  moreover have "(x' * d + k') div d = x'" "(x' * d + k') mod d = k'" using assms(2) by simp_all
  ultimately show ?thesis using assms(3) by metis
qed

lemma slot_lt: "a < N \<Longrightarrow> b < N \<Longrightarrow> k < dofs \<Longrightarrow> slot N dofs a b k < N * N * dofs"
  unfolding slot_alt by (intro pair_lt) simp_all

lemma slot_inj:
  assumes "b < N" "b' < N" "k < dofs" "k' < dofs" "slot N dofs a b k = slot N dofs a' b' k'"
  shows "a = a' \<and> b = b' \<and> k = k'"
proof -
  from pair_inj [OF assms(3,4) assms(5) [unfolded slot_alt]]
  have "a * N + b = a' * N + b'" "k = k'" by simp_all
  with pair_inj [OF assms(1,2), of a a'] show ?thesis by simp
qed

lemma xtod_k_mat:
  assumes "i < N" "j < N" "k < dofs"
  shows "xtod_k N dofs (jmat N dofs P) i j d k dirn =
    (None, F64_set (F64_set dirn (slot N dofs i j k) (jdiv (jsub (P i k) (P j k)) d))
             (slot N dofs j i k)
             (jneg (F64_get (F64_set dirn (slot N dofs i j k) (jdiv (jsub (P i k) (P j k)) d))
                      (slot N dofs i j k))))"
  using assms
  by (simp add: xtod_k_def jmat_get row_get_map slot_def Let_def)

lemma xtod_k_loop:
  assumes i: "i < N" and j: "j < N" and ne: "i \<noteq> j" and len: "length dirn = N * N * dofs"
    and n: "n \<le> dofs"
  shows "\<exists>dirn'. foldX (xtod_k N dofs (jmat N dofs P) i j d) [0..<n] dirn = (None, dirn') \<and>
     written N dofs (\<lambda>a b k. (a = i \<and> b = j \<or> a = j \<and> b = i) \<and> k < n)
       (\<lambda>a b k. if a = i then jdiv (jsub (P i k) (P j k)) d
                 else jneg (jdiv (jsub (P i k) (P j k)) d))
       dirn dirn'"
  using n
proof (induction n)
  case 0
  then show ?case by (simp add: written_def)
next
  case (Suc n)
  then obtain dn where f: "foldX (xtod_k N dofs (jmat N dofs P) i j d) [0..<n] dirn = (None, dn)"
    and w: "written N dofs (\<lambda>a b k. (a = i \<and> b = j \<or> a = j \<and> b = i) \<and> k < n)
       (\<lambda>a b k. if a = i then jdiv (jsub (P i k) (P j k)) d
                 else jneg (jdiv (jsub (P i k) (P j k)) d)) dirn dn"
    by auto
  from Suc.prems have nd: "n < dofs" by simp
  let ?w = "jdiv (jsub (P i n) (P j n)) d"
  let ?s1 = "slot N dofs i j n" and ?s2 = "slot N dofs j i n"
  from w have ldn: "length dn = N * N * dofs" by (simp add: written_def len)
  have s1: "?s1 < length dn" and s2: "?s2 < length dn"
    using slot_lt [OF i j nd] slot_lt [OF j i nd] ldn by simp_all
  have u: "[0..<Suc n] = [0..<n] @ [n]" by simp
  have res: "foldX (xtod_k N dofs (jmat N dofs P) i j d) [0..<Suc n] dirn
      = (None, dn[?s1 := ?w, ?s2 := jneg ?w])"
    unfolding u foldX_snoc [OF f] xtod_k_mat [OF i j nd]
    using s1 s2 by (simp add: F64_set_def F64_get_def)
  have "written N dofs (\<lambda>a b k. (a = i \<and> b = j \<or> a = j \<and> b = i) \<and> k < Suc n)
       (\<lambda>a b k. if a = i then jdiv (jsub (P i k) (P j k)) d
                 else jneg (jdiv (jsub (P i k) (P j k)) d))
       dirn (dn[?s1 := ?w, ?s2 := jneg ?w])"
    unfolding written_def
  proof (intro conjI allI impI)
    show "length (dn[?s1 := ?w, ?s2 := jneg ?w]) = length dirn" using ldn len by simp
  next
    fix a b k assume a: "a < N" and b: "b < N" and k: "k < dofs"
    let ?s = "slot N dofs a b k"
    have e1: "?s = ?s1 \<longleftrightarrow> a = i \<and> b = j \<and> k = n"
      using slot_inj [OF b j k nd, of a i] by auto
    have e2: "?s = ?s2 \<longleftrightarrow> a = j \<and> b = i \<and> k = n"
      using slot_inj [OF b i k nd, of a j] by auto
    from w a b k have old: "dn ! ?s = (if (a = i \<and> b = j \<or> a = j \<and> b = i) \<and> k < n
        then (if a = i then jdiv (jsub (P i k) (P j k)) d else jneg (jdiv (jsub (P i k) (P j k)) d))
        else dirn ! ?s)"
      by (simp add: written_def)
    have "dn[?s1 := ?w, ?s2 := jneg ?w] ! ?s =
        (if ?s = ?s2 then jneg ?w else if ?s = ?s1 then ?w else dn ! ?s)"
      using s1 s2 by (simp add: nth_list_update)
    also have "\<dots> = (if (a = i \<and> b = j \<or> a = j \<and> b = i) \<and> k < Suc n
        then (if a = i then jdiv (jsub (P i k) (P j k)) d else jneg (jdiv (jsub (P i k) (P j k)) d))
        else dirn ! ?s)"
      unfolding e1 e2 old using ne by (auto simp: less_Suc_eq)
    finally show "dn[?s1 := ?w, ?s2 := jneg ?w] ! ?s =
        (if (a = i \<and> b = j \<or> a = j \<and> b = i) \<and> k < Suc n
        then (if a = i then jdiv (jsub (P i k) (P j k)) d else jneg (jdiv (jsub (P i k) (P j k)) d))
        else dirn ! ?s)" .
  qed
  with res show ?case by blast
qed

lemma written_cong:
  assumes "written N dofs W V dirn dirn'"
    and "\<And>a b k. a < N \<Longrightarrow> b < N \<Longrightarrow> k < dofs \<Longrightarrow> W a b k = W' a b k"
    and "\<And>a b k. a < N \<Longrightarrow> b < N \<Longrightarrow> k < dofs \<Longrightarrow> W a b k \<Longrightarrow> V a b k = V' a b k"
  shows "written N dofs W' V' dirn dirn'"
  unfolding written_def
proof (intro conjI allI impI)
  from assms(1) show "length dirn' = length dirn" by (simp add: written_def)
next
  fix a b k assume abk: "a < N" "b < N" "k < dofs"
  with assms(1) have "dirn' ! slot N dofs a b k =
      (if W a b k then V a b k else dirn ! slot N dofs a b k)"
    by (simp add: written_def)
  also have "\<dots> = (if W' a b k then V' a b k else dirn ! slot N dofs a b k)"
    using assms(2) [OF abk] assms(3) [OF abk] by simp
  finally show "dirn' ! slot N dofs a b k =
      (if W' a b k then V' a b k else dirn ! slot N dofs a b k)" .
qed

lemma written_trans:
  assumes "written N dofs W1 V dirn d1" and "written N dofs W2 V d1 d2"
  shows "written N dofs (\<lambda>a b k. W1 a b k \<or> W2 a b k) V dirn d2"
  using assms unfolding written_def by auto

lemma written_refl: "written N dofs (\<lambda>a b k. False) V dirn dirn"
  by (simp add: written_def)

lemma xtod_j_mat:
  assumes i: "i < N" and j: "j < N" and lt: "i < j" and len: "length dirn = N * N * dofs"
  shows "\<exists>dst' dirn'. xtod_j N dofs (jmat N dofs P) i j (dst, dirn) = (None, (dst', dirn')) \<and>
     written N dofs (\<lambda>a b k. a = i \<and> b = j \<or> a = j \<and> b = i) (pairDir dofs P) dirn dirn'"
proof -
  let ?d = "jsqrt (sqDist dofs P i j)"
  from lt have ne: "i \<noteq> j" by simp
  from xtod_k_loop [OF i j ne len order_refl, of P ?d] obtain dirn' where
    f: "foldX (xtod_k N dofs (jmat N dofs P) i j ?d) [0..<dofs] dirn = (None, dirn')" and
    w: "written N dofs (\<lambda>a b k. (a = i \<and> b = j \<or> a = j \<and> b = i) \<and> k < dofs)
       (\<lambda>a b k. if a = i then jdiv (jsub (P i k) (P j k)) ?d
                 else jneg (jdiv (jsub (P i k) (P j k)) ?d)) dirn dirn'"
    by blast
  have w': "written N dofs (\<lambda>a b k. a = i \<and> b = j \<or> a = j \<and> b = i) (pairDir dofs P) dirn dirn'"
    using w
  proof (rule written_cong)
    fix a b k assume "a < N" "b < N" "k < dofs"
    then show "((a = i \<and> b = j \<or> a = j \<and> b = i) \<and> k < dofs) = (a = i \<and> b = j \<or> a = j \<and> b = i)"
      by simp
    assume A: "(a = i \<and> b = j \<or> a = j \<and> b = i) \<and> k < dofs"
    show "(if a = i then jdiv (jsub (P i k) (P j k)) ?d
                 else jneg (jdiv (jsub (P i k) (P j k)) ?d)) = pairDir dofs P a b k"
    proof (cases "a = i")
      case True
      with A ne have "b = j" by blast
      with True lt show ?thesis by (simp add: pairDir_def unitDir_def del: jdiv.simps jneg.simps)
    next
      case False
      with A have ab: "a = j" "b = i" by blast+
      from lt have "\<not> j < i" by simp
      with False ab show ?thesis by (simp add: pairDir_def unitDir_def del: jdiv.simps jneg.simps)
    qed
  qed
  have "xtod_j N dofs (jmat N dofs P) i j (dst, dirn) =
      (None, (F64_set (F64_set dst (i * N + j) ?d) (j * N + i) ?d, dirn'))"
    unfolding xtod_j_def L2_jmat [OF i j] by (simp add: f Let_def del: jsqrt.simps)
  with w' show ?thesis by blast
qed

lemma xtod_j_loop:
  assumes i: "i < N" and m: "m \<le> N" and len: "length dirn = N * N * dofs"
  shows "\<exists>dst' dirn'. foldX (xtod_j N dofs (jmat N dofs P) i) [i + 1..<m] (dst, dirn)
            = (None, (dst', dirn')) \<and>
     written N dofs (\<lambda>a b k. (a = i \<and> i < b \<and> b < m) \<or> (b = i \<and> i < a \<and> a < m))
       (pairDir dofs P) dirn dirn'"
  using m
proof (induction m)
  case 0
  then show ?case using written_refl [of N dofs "pairDir dofs P" dirn] by simp
next
  case (Suc m)
  show ?case
  proof (cases "i < m")
    case False
    then have "[i + 1..<Suc m] = []" by simp
    moreover have "written N dofs (\<lambda>a b k. (a = i \<and> i < b \<and> b < Suc m) \<or> (b = i \<and> i < a \<and> a < Suc m))
       (pairDir dofs P) dirn dirn"
    proof (rule written_cong [OF written_refl])
      fix a b k :: nat
      show "False = ((a = i \<and> i < b \<and> b < Suc m) \<or> (b = i \<and> i < a \<and> a < Suc m))"
        using False by auto
    qed simp
    ultimately show ?thesis by simp
  next
    case True
    from Suc obtain ds dn where
      f: "foldX (xtod_j N dofs (jmat N dofs P) i) [i + 1..<m] (dst, dirn) = (None, (ds, dn))" and
      w: "written N dofs (\<lambda>a b k. (a = i \<and> i < b \<and> b < m) \<or> (b = i \<and> i < a \<and> a < m))
            (pairDir dofs P) dirn dn"
      by auto
    from w have ldn: "length dn = N * N * dofs" by (simp add: written_def len)
    from Suc.prems have mN: "m < N" by simp
    from xtod_j_mat [OF i mN True ldn, of P ds] obtain ds' dn' where
      s: "xtod_j N dofs (jmat N dofs P) i m (ds, dn) = (None, (ds', dn'))" and
      w2: "written N dofs (\<lambda>a b k. a = i \<and> b = m \<or> a = m \<and> b = i) (pairDir dofs P) dn dn'"
      by blast
    have u: "[i + 1..<Suc m] = [i + 1..<m] @ [m]" using True by simp
    have res: "foldX (xtod_j N dofs (jmat N dofs P) i) [i + 1..<Suc m] (dst, dirn) = (None, (ds', dn'))"
      unfolding u foldX_snoc [OF f] by (rule s)
    have "written N dofs (\<lambda>a b k. (a = i \<and> i < b \<and> b < Suc m) \<or> (b = i \<and> i < a \<and> a < Suc m))
       (pairDir dofs P) dirn dn'"
    proof (rule written_cong [OF written_trans [OF w w2]])
      fix a b k :: nat
      show "(((a = i \<and> i < b \<and> b < m) \<or> (b = i \<and> i < a \<and> a < m)) \<or>
             (a = i \<and> b = m \<or> a = m \<and> b = i)) =
            ((a = i \<and> i < b \<and> b < Suc m) \<or> (b = i \<and> i < a \<and> a < Suc m))"
        using True by (auto simp: less_Suc_eq)
    qed simp
    with res show ?thesis by blast
  qed
qed

lemma xtod_loop:
  assumes n: "n \<le> N" and len: "length dirn = N * N * dofs"
  shows "\<exists>dst' dirn'. foldX (\<lambda>i. foldX (xtod_j N dofs (jmat N dofs P) i) [i + 1..<N]) [0..<n] (dst, dirn)
            = (None, (dst', dirn')) \<and>
     written N dofs (\<lambda>a b k. a \<noteq> b \<and> (a < n \<or> b < n)) (pairDir dofs P) dirn dirn'"
  using n
proof (induction n)
  case 0
  then show ?case using written_refl [of N dofs "pairDir dofs P" dirn] by simp
next
  case (Suc n)
  then obtain ds dn where
    f: "foldX (\<lambda>i. foldX (xtod_j N dofs (jmat N dofs P) i) [i + 1..<N]) [0..<n] (dst, dirn)
          = (None, (ds, dn))" and
    w: "written N dofs (\<lambda>a b k. a \<noteq> b \<and> (a < n \<or> b < n)) (pairDir dofs P) dirn dn"
    by auto
  from w have ldn: "length dn = N * N * dofs" by (simp add: written_def len)
  from Suc.prems have nN: "n < N" by simp
  from xtod_j_loop [OF nN order_refl ldn, of P ds] obtain ds' dn' where
    s: "foldX (xtod_j N dofs (jmat N dofs P) n) [n + 1..<N] (ds, dn) = (None, (ds', dn'))" and
    w2: "written N dofs (\<lambda>a b k. (a = n \<and> n < b \<and> b < N) \<or> (b = n \<and> n < a \<and> a < N))
       (pairDir dofs P) dn dn'"
    by blast
  have u: "[0..<Suc n] = [0..<n] @ [n]" by simp
  have res: "foldX (\<lambda>i. foldX (xtod_j N dofs (jmat N dofs P) i) [i + 1..<N]) [0..<Suc n] (dst, dirn)
      = (None, (ds', dn'))"
    unfolding u foldX_snoc [OF f] by (rule s)
  have "written N dofs (\<lambda>a b k. a \<noteq> b \<and> (a < Suc n \<or> b < Suc n)) (pairDir dofs P) dirn dn'"
  proof (rule written_cong [OF written_trans [OF w w2]])
    fix a b k :: nat
    assume "a < N" "b < N"
    then show "((a \<noteq> b \<and> (a < n \<or> b < n)) \<or>
             ((a = n \<and> n < b \<and> b < N) \<or> (b = n \<and> n < a \<and> a < N))) =
            (a \<noteq> b \<and> (a < Suc n \<or> b < Suc n))"
      by (auto simp: less_Suc_eq)
  qed simp
  with res show ?case by blast
qed

subsection \<open>Coincident nodes\<close>

lemma upt2: "[0..<2] = [0, 1]" "[1..<2] = [1]" "[2..<2] = []"
  by (simp_all add: upt_conv_Cons)

lemma jdiv_zero_not_finite: "\<not> isFinite (jdiv a (Num 0))"
  by (cases a) (simp_all add: isFinite_def)

lemma isFinite_jneg: "isFinite (jneg a) = isFinite a"
  by (cases a) (simp_all add: isFinite_def)

text \<open>
  C7, amended. \<open>_xtod\<close> has no test of the distance. On a position array of \<open>N\<close> rows of
  \<open>dofs\<close> numbers each (doubles, NaN or infinities) and a direction buffer of
  \<open>N * N * dofs\<close> slots it returns without throwing, and for every pair \<open>i < j\<close> and
  axis \<open>k\<close> the slot of the pair holds the quotient, in doubles, of the coordinate
  difference by the square root of the sum of squares, whatever that root is, and the
  mirrored slot its negation. When the two rows hold the same finite numbers both slots
  are NaN (the quotient 0 / 0), and whenever the distance computed is 0, also by
  underflow of the squares, neither slot is a finite number.
\<close>

theorem xtod_coincident_pair_writes_NaN:
  assumes "length dirn = N * N * dofs" and "i < j" and "j < N" and "k < dofs"
  shows "\<exists>dst' dirn'. xtod N dofs (dst, dirn) (jmat N dofs P) = (None, (dst', dirn')) \<and>
     dirn' ! (i * N * dofs + j * dofs + k) =
       jdiv (jsub (P i k) (P j k)) (jsqrt (sqDist dofs P i j)) \<and>
     dirn' ! (j * N * dofs + i * dofs + k) =
       jneg (jdiv (jsub (P i k) (P j k)) (jsqrt (sqDist dofs P i j))) \<and>
     ((\<forall>d<dofs. \<exists>x. P i d = Num x \<and> P j d = Num x) \<longrightarrow>
        dirn' ! (i * N * dofs + j * dofs + k) = NaN \<and>
        dirn' ! (j * N * dofs + i * dofs + k) = NaN) \<and>
     (jsqrt (sqDist dofs P i j) = Num 0 \<longrightarrow>
        \<not> isFinite (dirn' ! (i * N * dofs + j * dofs + k)) \<and>
        \<not> isFinite (dirn' ! (j * N * dofs + i * dofs + k)))"
proof -
  from assms have i: "i < N" by simp
  from xtod_loop [OF order_refl assms(1), of P dst] obtain dst' dirn' where
    x: "xtod N dofs (dst, dirn) (jmat N dofs P) = (None, (dst', dirn'))" and
    w: "written N dofs (\<lambda>a b k. a \<noteq> b \<and> (a < N \<or> b < N)) (pairDir dofs P) dirn dirn'"
    unfolding xtod_def by blast
  from w i assms have
    "dirn' ! slot N dofs i j k = pairDir dofs P i j k"
    "dirn' ! slot N dofs j i k = pairDir dofs P j i k"
    unfolding written_def by auto
  then have ij: "dirn' ! (i * N * dofs + j * dofs + k) = unitDir dofs P i j k"
    and ji: "dirn' ! (j * N * dofs + i * dofs + k) = jneg (unitDir dofs P i j k)"
    using assms(2) by (simp_all add: slot_def pairDir_def)
  have c: "unitDir dofs P i j k = NaN" if "\<forall>d<dofs. \<exists>x. P i d = Num x \<and> P j d = Num x"
    using that assms(4) by (rule unitDir_coincident)
  show ?thesis
  proof (intro exI conjI impI)
    show "xtod N dofs (dst, dirn) (jmat N dofs P) = (None, (dst', dirn'))" by (rule x)
    show "dirn' ! (i * N * dofs + j * dofs + k) =
        jdiv (jsub (P i k) (P j k)) (jsqrt (sqDist dofs P i j))"
      using ij by (simp only: unitDir_def)
    show "dirn' ! (j * N * dofs + i * dofs + k) =
        jneg (jdiv (jsub (P i k) (P j k)) (jsqrt (sqDist dofs P i j)))"
      using ji by (simp only: unitDir_def)
  next
    assume a: "\<forall>d<dofs. \<exists>x. P i d = Num x \<and> P j d = Num x"
    show "dirn' ! (i * N * dofs + j * dofs + k) = NaN" using ij c [OF a] by simp
    show "dirn' ! (j * N * dofs + i * dofs + k) = NaN" using ji c [OF a] by simp
  next
    assume z: "jsqrt (sqDist dofs P i j) = Num 0"
    show "\<not> isFinite (dirn' ! (i * N * dofs + j * dofs + k))"
      unfolding ij unitDir_def z by (rule jdiv_zero_not_finite)
    show "\<not> isFinite (dirn' ! (j * N * dofs + i * dofs + k))"
      unfolding ji unitDir_def z isFinite_jneg by (rule jdiv_zero_not_finite)
  qed
qed

theorem xtod_coincident_pair_writes_NaN_witness:
  "\<exists>dst' dirn'. xtod 2 2 (new_Float64Array 4, new_Float64Array 8) (jmat 2 2 (\<lambda>i d. Num 7))
        = (None, (dst', dirn')) \<and> dirn' ! 2 = NaN \<and> dirn' ! 4 = NaN \<and>
     jsqrt (sqDist 2 (\<lambda>i d. Num 7) 0 1) = Num 0 \<and> \<not> isFinite (dirn' ! 2)"
proof -
  have l: "length (new_Float64Array 8) = 2 * 2 * 2" by (simp add: new_Float64Array_def)
  have z: "jsqrt (sqDist 2 (\<lambda>i d. Num 7) 0 1) = Num 0"
    by (simp add: sqDist_coincident round64_0)
  from xtod_coincident_pair_writes_NaN
    [where dirn = "new_Float64Array 8" and N = 2 and dofs = 2 and i = 0 and j = 1 and k = 0
       and P = "\<lambda>i d. Num 7" and dst = "new_Float64Array 4", OF l]
  show ?thesis using z by (auto simp: eval_nat_numeral)
qed

text \<open>Two nodes at the origin: the four slots of the pair are NaN after \<open>_xtod\<close>.\<close>

theorem xtod_coincident_writes_NaN_counterexample:
  "xtod 2 2 (new_Float64Array 4, new_Float64Array 8) [Some [Num 0, Num 0], Some [Num 0, Num 0]]
     = (None, ([Num 0, Num 0, Num 0, Num 0],
               [Num 0, Num 0, NaN, NaN, NaN, NaN, Num 0, Num 0]))"
  by (simp add: xtod_def xtod_j_def xtod_k_def L2_def L2_step_def Array_get_def row_get_def
      jsub_def F64_set_def F64_get_def new_Float64Array_def upt2 eval_nat_numeral Let_def
      round64_0)

text \<open>Two nodes \<open>2 powr - 600\<close> apart on the first axis: the square of the difference
  underflows, the distance computed is 0, and the slots of the pair hold the infinities
  on the first axis and NaN on the second.\<close>

lemma xtod_underflow_pair:
  assumes "0 < a" and "round64 (- a) = Num (- a)" and "round64 (a * a) = Num 0"
  shows "xtod 2 2 (new_Float64Array 4, new_Float64Array 8) [Some [Num 0, Num 0], Some [Num a, Num 0]]
     = (None, ([Num 0, Num 0, Num 0, Num 0],
               [Num 0, Num 0, NegInf, NaN, PosInf, NaN, Num 0, Num 0]))"
  using assms
  by (simp add: xtod_def xtod_j_def xtod_k_def L2_def L2_step_def Array_get_def row_get_def
      jsub_def F64_set_def F64_get_def new_Float64Array_def upt2 eval_nat_numeral Let_def
      round64_0)

lemma xtod_underflow_writes_Infinity:
  "xtod 2 2 (new_Float64Array 4, new_Float64Array 8)
     [Some [Num 0, Num 0], Some [Num (2 powr (- 600)), Num 0]]
     = (None, ([Num 0, Num 0, Num 0, Num 0],
               [Num 0, Num 0, NegInf, NaN, PosInf, NaN, Num 0, Num 0]))"
proof (rule xtod_underflow_pair)
  show "0 < (2::real) powr (- 600)" by simp
  show "round64 (- (2 powr (- 600))) = Num (- (2 powr (- 600)))"
    using round64_pow2 [of "- 600" "- 1"] by simp
  have "(2::real) powr (- 600) * 2 powr (- 600) = 2 powr (- 1200)"
    by (simp add: powr_add [symmetric])
  moreover have "\<bar>(2::real) powr (- 1200)\<bar> < 2 powr (- 1075)" by simp
  ultimately show "round64 (2 powr (- 600) * 2 powr (- 600)) = Num 0"
    by (simp only: round64_underflow)
qed

section \<open>The layout: recentring\<close>

subsection \<open>The two loops of \<open>step\<close> over the positions\<close>

lemma jsum_Suc: "jsum f (Suc n) = jadd (jsum f n) (f n)"
  by (simp add: jsum_def)

lemma jvec_get: "d < n \<Longrightarrow> F64_get (jvec n Y) d = Y d"
  by (simp add: F64_get_def jvec_def)

lemma jvec_set: "d < n \<Longrightarrow> F64_set (jvec n Y) d x = jvec n (Y(d := x))"
  by (auto simp: F64_set_def jvec_def intro!: nth_equalityI)

lemma jmat_set:
  assumes "i < N" "d < dofs"
  shows "(jmat N dofs P)[i := Some (row_set (map (P i) [0..<dofs]) d x)]
           = jmat N dofs (P(i := (P i)(d := x)))"
  using assms by (auto simp: jmat_def row_set_def intro!: nth_equalityI)

lemma row_get_set:
  "d < dofs \<Longrightarrow> row_get (row_set (map R [0..<dofs]) d x) d = x"
  by (simp add: row_get_def row_set_def)

lemma integrate_jmat:
  assumes "i < N" "d < dofs"
  shows "integrate vel dofs i d (jmat N dofs P, jvec dofs Y) =
     (None, (case integrateJ vel dofs i d (P, Y) of (P', Y') \<Rightarrow> (jmat N dofs P', jvec dofs Y')))"
  using assms
  by (simp add: integrate_def integrateJ_def jmat_get row_get_map jvec_get jvec_set jmat_set
      row_get_set Let_def)

lemma recentre_jmat:
  assumes "i < N" "d < dofs"
  shows "recentre (jvec dofs Y) N i d (jmat N dofs P) = (None, jmat N dofs (recentreJ Y N i d P))"
  using assms
  by (simp add: recentre_def recentreJ_def jmat_get row_get_map jvec_get jmat_set)

lemma foldX_abs:
  assumes "\<And>x a. x \<in> set xs \<Longrightarrow> f x (repr a) = (None, repr (g x a))"
  shows "foldX f xs (repr a) = (None, repr (fold g xs a))"
  using assms by (induction xs arbitrary: a) simp_all

lemma integrate_loops:
  "foldX (\<lambda>i. foldX (integrate vel dofs i) [0..<dofs]) [0..<N] (jmat N dofs P, jvec dofs Y) =
   (None, (case fold (\<lambda>i. fold (integrateJ vel dofs i) [0..<dofs]) [0..<N] (P, Y) of
             (P', Y') \<Rightarrow> (jmat N dofs P', jvec dofs Y')))"
proof -
  let ?repr = "\<lambda>(P, Y). (jmat N dofs P, jvec dofs Y)"
  have inner: "foldX (integrate vel dofs i) [0..<dofs] (?repr a) =
      (None, ?repr (fold (integrateJ vel dofs i) [0..<dofs] a))" if "i < N"
    for i and a :: "(nat \<Rightarrow> nat \<Rightarrow> jsnum) \<times> (nat \<Rightarrow> jsnum)"
  proof (rule foldX_abs [where repr = ?repr])
    fix d and a :: "(nat \<Rightarrow> nat \<Rightarrow> jsnum) \<times> (nat \<Rightarrow> jsnum)" assume "d \<in> set [0..<dofs]"
    then have d: "d < dofs" by simp
    obtain P Y where a: "a = (P, Y)" by (cases a)
    show "integrate vel dofs i d (?repr a) = (None, ?repr (integrateJ vel dofs i d a))"
      unfolding a using integrate_jmat [OF that d, of vel P Y] by simp
  qed
  have "foldX (\<lambda>i. foldX (integrate vel dofs i) [0..<dofs]) [0..<N] (?repr (P, Y)) =
      (None, ?repr (fold (\<lambda>i. fold (integrateJ vel dofs i) [0..<dofs]) [0..<N] (P, Y)))"
    by (rule foldX_abs [where repr = ?repr]) (simp add: inner)
  then show ?thesis by simp
qed

lemma recentre_loops:
  "foldX (\<lambda>i. foldX (recentre (jvec dofs Y) N i) [0..<dofs]) [0..<N] (jmat N dofs P) =
   (None, jmat N dofs (fold (\<lambda>i. fold (recentreJ Y N i) [0..<dofs]) [0..<N] P))"
proof -
  have inner: "foldX (recentre (jvec dofs Y) N i) [0..<dofs] (jmat N dofs a) =
      (None, jmat N dofs (fold (recentreJ Y N i) [0..<dofs] a))" if "i < N" for i a
    by (rule foldX_abs [where repr = "jmat N dofs"]) (simp add: recentre_jmat that)
  show ?thesis by (rule foldX_abs [where repr = "jmat N dofs"]) (simp add: inner)
qed

lemma integrateJ_inner:
  "fold (integrateJ vel dofs i) [0..<m] (P, Y) =
     (\<lambda>a d. if a = i \<and> d < m then jadd (P a d) (F64_get vel (a * dofs + d)) else P a d,
      \<lambda>d. if d < m then jadd (Y d) (jadd (P i d) (F64_get vel (i * dofs + d))) else Y d)"
proof (induction m)
  case 0
  then show ?case by simp
next
  case (Suc m)
  have u: "[0..<Suc m] = [0..<m] @ [m]" by simp
  show ?case
    unfolding u fold_append comp_apply Suc
    by (auto simp: integrateJ_def fun_eq_iff less_Suc_eq)
qed

lemma integrateJ_outer:
  "fold (\<lambda>i. fold (integrateJ vel dofs i) [0..<dofs]) [0..<n] (P, Y) =
     (\<lambda>a d. if a < n \<and> d < dofs then jadd (P a d) (F64_get vel (a * dofs + d)) else P a d,
      \<lambda>d. if d < dofs
          then fold (\<lambda>a s. jadd s (jadd (P a d) (F64_get vel (a * dofs + d)))) [0..<n] (Y d)
          else Y d)"
proof (induction n)
  case 0
  then show ?case by (simp add: fun_eq_iff)
next
  case (Suc n)
  have u: "[0..<Suc n] = [0..<n] @ [n]" by simp
  show ?case
    unfolding u fold_append comp_apply Suc
    by (auto simp: integrateJ_inner fun_eq_iff less_Suc_eq)
qed

lemma recentreJ_inner:
  "fold (recentreJ Y N i) [0..<m] P =
     (\<lambda>a d. if a = i \<and> d < m then jsub (P a d) (jdiv (Y d) (Num (real N))) else P a d)"
proof (induction m)
  case 0
  then show ?case by simp
next
  case (Suc m)
  have u: "[0..<Suc m] = [0..<m] @ [m]" by simp
  show ?case
    unfolding u fold_append comp_apply Suc
    by (auto simp: recentreJ_def fun_eq_iff less_Suc_eq)
qed

lemma recentreJ_outer:
  "fold (\<lambda>i. fold (recentreJ Y N i) [0..<dofs]) [0..<n] P =
     (\<lambda>a d. if a < n \<and> d < dofs then jsub (P a d) (jdiv (Y d) (Num (real N))) else P a d)"
proof (induction n)
  case 0
  then show ?case by simp
next
  case (Suc n)
  have u: "[0..<Suc n] = [0..<n] @ [n]" by simp
  show ?case
    unfolding u fold_append comp_apply Suc
    by (auto simp: recentreJ_inner fun_eq_iff less_Suc_eq)
qed

lemma zeroFill_loop:
  "n \<le> length ys \<Longrightarrow>
     fold (\<lambda>d y. F64_set y d (Num 0)) [0..<n] ys = replicate n (Num 0) @ drop n ys"
proof (induction n)
  case 0
  then show ?case by simp
next
  case (Suc n)
  then have n: "n < length ys" by simp
  have u: "[0..<Suc n] = [0..<n] @ [n]" by simp
  have r: "replicate (Suc n) (Num 0) = replicate n (Num 0) @ [Num 0]"
    by (simp add: replicate_append_same)
  from Suc n show ?case
    unfolding u fold_append comp_apply r
    by (simp add: F64_set_def list_update_append upd_conv_take_nth_drop)
qed

lemma zeroFill_jvec: "length ys = n \<Longrightarrow> zeroFill n ys = jvec n (\<lambda>d. Num 0)"
  unfolding zeroFill_def
  by (simp add: zeroFill_loop jvec_def map_replicate_const)

lemma jmat_cong:
  assumes "\<And>i d. i < N \<Longrightarrow> d < dofs \<Longrightarrow> P i d = Q i d"
  shows "jmat N dofs P = jmat N dofs Q"
  using assms by (simp add: jmat_def)

lemma jvec_cong:
  assumes "\<And>d. d < n \<Longrightarrow> Y d = Z d"
  shows "jvec n Y = jvec n Z"
  using assms by (simp add: jvec_def)

lemma step_result:
  assumes ca: "calculateAcceleration g (anneal l) = (None, l1)"
    and N: "layout_numberOfNodes l1 = N" and dofs: "dof l1 = dofs"
    and pos: "position l1 = jmat N dofs P"
    and ym: "length (ymean l1) = dofs"
  shows "step g l = (None, l1\<lparr>
      position := jmat N dofs (\<lambda>i d.
         jsub (jadd (P i d) (F64_get (velocity l1) (i * dofs + d)))
           (jdiv (jsum (\<lambda>a. jadd (P a d) (F64_get (velocity l1) (a * dofs + d))) N)
              (Num (real N)))),
      ymean := jvec dofs (\<lambda>d. jsum (\<lambda>a. jadd (P a d) (F64_get (velocity l1) (a * dofs + d))) N),
      currentStep := currentStep l1 + 1\<rparr>)"
proof -
  let ?vel = "velocity l1"
  let ?q = "\<lambda>a d. jadd (P a d) (F64_get ?vel (a * dofs + d))"
  have z: "zeroFill dofs (ymean l1) = jvec dofs (\<lambda>d. Num 0)" using ym by (rule zeroFill_jvec)
  let ?Q = "\<lambda>a d. if a < N \<and> d < dofs then ?q a d else P a d"
  let ?Y = "\<lambda>d. if d < dofs then fold (\<lambda>a s. jadd s (?q a d)) [0..<N] (Num 0) else Num 0"
  have i: "foldX (\<lambda>i. foldX (integrate ?vel dofs i) [0..<dofs]) [0..<N]
             (position l1, zeroFill dofs (ymean l1)) = (None, (jmat N dofs ?Q, jvec dofs ?Y))"
    unfolding pos z integrate_loops integrateJ_outer by simp
  let ?R = "\<lambda>a d. if a < N \<and> d < dofs then jsub (?Q a d) (jdiv (?Y d) (Num (real N))) else ?Q a d"
  have r: "foldX (\<lambda>i. foldX (recentre (jvec dofs ?Y) N i) [0..<dofs]) [0..<N] (jmat N dofs ?Q)
             = (None, jmat N dofs ?R)"
    unfolding recentre_loops recentreJ_outer by simp
  have m: "jmat N dofs ?R = jmat N dofs (\<lambda>i d. jsub (?q i d) (jdiv (jsum (\<lambda>a. ?q a d) N) (Num (real N))))"
    by (rule jmat_cong) (simp add: jsum_def)
  have y: "jvec dofs ?Y = jvec dofs (\<lambda>d. jsum (\<lambda>a. ?q a d) N)"
    by (rule jvec_cong) (simp add: jsum_def)
  show ?thesis
    unfolding step_def ca using N dofs i r m y by (simp add: Let_def)
qed

subsection \<open>What the acceleration leaves unchanged\<close>

text \<open>On a position array without holes \<open>_calculateAcceleration\<close> returns without
  throwing and changes neither the positions nor the lengths of the buffers.\<close>

lemma foldX_None:
  assumes "\<And>x s. x \<in> set xs \<Longrightarrow> \<exists>s'. f x s = (None, s')"
  shows "\<exists>s'. foldX f xs s = (None, s')"
  using assms
proof (induction xs arbitrary: s)
  case Nil
  then show ?case by simp
next
  case (Cons x xs)
  from Cons.prems [of x s] obtain s1 where s1: "f x s = (None, s1)" by auto
  from Cons.IH [of s1] Cons.prems obtain s' where "foldX f xs s1 = (None, s')" by auto
  with s1 show ?case by simp
qed

lemma xtod_j_None:
  assumes "i < N" "j < N"
  shows "\<exists>s'. xtod_j N dofs (jmat N dofs P) i j s = (None, s')"
proof -
  obtain dst dirn where s: "s = (dst, dirn)" by (cases s)
  have "\<exists>dirn'. foldX (xtod_k N dofs (jmat N dofs P) i j (jsqrt (sqDist dofs P i j))) [0..<dofs] dirn
      = (None, dirn')"
    by (rule foldX_None) (simp add: xtod_k_mat [OF assms])
  then obtain dirn' where
    "foldX (xtod_k N dofs (jmat N dofs P) i j (jsqrt (sqDist dofs P i j))) [0..<dofs] dirn
      = (None, dirn')" by blast
  then show ?thesis
    unfolding s xtod_j_def L2_jmat [OF assms] by (simp add: Let_def)
qed

lemma xtod_None: "\<exists>s'. xtod N dofs s (jmat N dofs P) = (None, s')"
  unfolding xtod_def
proof (rule foldX_None)
  fix i s assume "i \<in> set [0..<N]"
  then have i: "i < N" by simp
  show "\<exists>s'. foldX (xtod_j N dofs (jmat N dofs P) i) [i + 1..<N] s = (None, s')"
  proof (rule foldX_None)
    fix j t assume "j \<in> set [i + 1..<N]"
    then have "j < N" by simp
    with i show "\<exists>s'. xtod_j N dofs (jmat N dofs P) i j t = (None, s')" by (rule xtod_j_None)
  qed
qed

lemma F64_set_length: "length (F64_set xs i v) = length xs"
  by (simp add: F64_set_def)

lemma fold_length:
  assumes "\<And>x s. length (f x s) = length (s::'b list)"
  shows "length (fold f xs s) = length s"
  using assms by (induction xs arbitrary: s) simp_all

lemma zeroFill_length: "length (zeroFill n ys) = length ys"
  unfolding zeroFill_def by (rule fold_length) (rule F64_set_length)

lemma nodeInteraction_length: "length (nodeInteraction l i j g) = length g"
proof (cases "i = j")
  case True
  then show ?thesis by (simp add: nodeInteraction_def)
next
  case False
  then show ?thesis
    unfolding nodeInteraction_def Let_def
    by (simp only: if_False F64_set_length) (rule fold_length, rule F64_set_length)
qed

lemma fold_inv:
  assumes "I s" and "\<And>x s. x \<in> set xs \<Longrightarrow> I s \<Longrightarrow> I (f x s)"
  shows "I (fold f xs s)"
  using assms by (induction xs arbitrary: s) simp_all

lemma processNodeInteractions_frame:
  assumes pos: "position l = jmat (layout_numberOfNodes l) (dof l) P"
  shows "\<exists>l1. processNodeInteractions l = (None, l1) \<and> position l1 = position l \<and>
     layout_numberOfNodes l1 = layout_numberOfNodes l \<and> dof l1 = dof l \<and>
     length (ymean l1) = length (ymean l)"
proof -
  define N where "N = layout_numberOfNodes l"
  define dofs where "dofs = dof l"
  from xtod_None [of N dofs "(distance l, direction l)" P] obtain dst' dirn' where
    x: "xtod N dofs (distance l, direction l) (jmat N dofs P) = (None, (dst', dirn'))"
    by (metis surj_pair)
  let ?l1 = "l\<lparr>distance := dst', direction := dirn'\<rparr>"
  let ?body = "\<lambda>i (gsum, acc).
       let gsum0 = zeroFill dofs gsum;
           gsum1 = fold (nodeInteraction ?l1 i) [0..<N] gsum0
       in (gsum1, fold (\<lambda>d a. F64_set a (i * dofs + d) (F64_get gsum1 d)) [0..<dofs] acc)"
  let ?I = "\<lambda>s. length (fst s) = length (ymean l)"
  have "?I (fold ?body [0..<N] (ymean l, acceleration l))"
  proof (rule fold_inv [where I = ?I])
    show "?I (ymean l, acceleration l)" by simp
  next
    fix i and s :: "jsnum list \<times> jsnum list" assume s: "?I s"
    obtain gsum acc where sp: "s = (gsum, acc)" by (cases s)
    have "length (fold (nodeInteraction ?l1 i) [0..<N] (zeroFill dofs gsum)) = length gsum"
      using fold_length [of "nodeInteraction ?l1 i" "[0..<N]" "zeroFill dofs gsum"]
      by (simp add: nodeInteraction_length zeroFill_length)
    with s show "?I (?body i s)" unfolding sp by (simp add: Let_def)
  qed
  then obtain gsum acc where
    f: "fold ?body [0..<N] (ymean l, acceleration l) = (gsum, acc)" and
    lg: "length gsum = length (ymean l)"
    by (cases "fold ?body [0..<N] (ymean l, acceleration l)") simp
  have res: "processNodeInteractions l = (None, ?l1\<lparr>ymean := gsum, acceleration := acc\<rparr>)"
    unfolding processNodeInteractions_def Let_def pos
    using x f by (simp add: N_def dofs_def Let_def)
  with lg show ?thesis by simp
qed

lemma calculateAcceleration_frame:
  assumes pos: "position l = jmat (layout_numberOfNodes l) (dof l) P"
  shows "\<exists>l1. calculateAcceleration g l = (None, l1) \<and> position l1 = position l \<and>
     layout_numberOfNodes l1 = layout_numberOfNodes l \<and> dof l1 = dof l \<and>
     length (ymean l1) = length (ymean l)"
proof -
  from processNodeInteractions_frame [OF pos] obtain l1 where
    p: "processNodeInteractions l = (None, l1)" and
    fr: "position l1 = position l" "layout_numberOfNodes l1 = layout_numberOfNodes l"
      "dof l1 = dof l" "length (ymean l1) = length (ymean l)"
    by blast
  show ?thesis
    unfolding calculateAcceleration_def p using fr
    by (simp add: Let_def processEdgeInteractions_def)
qed

lemma anneal_frame:
  "position (anneal l) = position l" "layout_numberOfNodes (anneal l) = layout_numberOfNodes l"
  "dof (anneal l) = dof l" "ymean (anneal l) = ymean l"
  by (simp_all add: anneal_def)

subsection \<open>The rounding error of the recentred sum\<close>

text \<open>A running sum of \<open>n\<close> doubles that stays finite differs from the exact sum by at
  most \<open>((1 + u64) ^ n - 1)\<close> times the sum of the absolute values plus
  \<open>n * (1 + u64) ^ n * eta64\<close>; the division by \<open>n\<close> and the \<open>n\<close> subtractions add one
  rounding each.\<close>

lemma jadd_Num:
  assumes "jadd a b = Num z"
  shows "\<exists>x y. a = Num x \<and> b = Num y \<and> round64 (x + y) = Num z"
  using assms by (cases a; cases b) (simp_all split: if_splits)

lemma jsub_Num:
  assumes "jsub a b = Num z"
  shows "\<exists>x y. a = Num x \<and> b = Num y \<and> round64 (x - y) = Num z"
proof -
  from jadd_Num [OF assms [unfolded jsub_def]] obtain x y' where
    a: "a = Num x" and b: "jneg b = Num y'" and r: "round64 (x + y') = Num z" by blast
  from b obtain y where "b = Num y" "y' = - y" by (cases b) simp_all
  with a r show ?thesis by simp
qed

lemma jdiv_Num:
  assumes "jdiv a (Num n) = Num z" and "n \<noteq> 0"
  shows "\<exists>x. a = Num x \<and> round64 (x / n) = Num z"
  using assms by (cases a) (simp_all split: if_splits)

lemma sum_step_bound:
  fixes u e A T ax n d1 d0 m E :: real
  assumes u: "0 \<le> u" and e: "0 \<le> e" and A: "1 \<le> A" and T: "0 \<le> T" and ax: "0 \<le> ax"
    and d1: "d1 \<le> u * m + e" and m: "m \<le> E + T + ax" and d0: "d0 \<le> E"
    and E: "E = (A - 1) * T + n * A * e"
  shows "d1 + d0 \<le> ((1 + u) * A - 1) * (T + ax) + (n + 1) * ((1 + u) * A) * e"
proof -
  have "u * m \<le> u * (E + T + ax)" using m u by (rule mult_left_mono)
  with d1 d0 have b: "d1 + d0 \<le> u * (E + T + ax) + e + E" by linarith
  have "((1 + u) * A - 1) * (T + ax) + (n + 1) * ((1 + u) * A) * e - (u * (E + T + ax) + e + E)
      = (1 + u) * (A - 1) * ax + ((1 + u) * A - 1) * e"
    by (simp add: E algebra_simps)
  moreover have "0 \<le> (1 + u) * (A - 1) * ax" using u A ax by simp
  moreover have "0 \<le> ((1 + u) * A - 1) * e"
  proof -
    have "1 * 1 \<le> (1 + u) * A" using u A by (intro mult_mono) simp_all
    with e show ?thesis by simp
  qed
  ultimately have "u * (E + T + ax) + e + E
      \<le> ((1 + u) * A - 1) * (T + ax) + (n + 1) * ((1 + u) * A) * e" by linarith
  with b show ?thesis by linarith
qed

lemma jsum_error:
  assumes "jsum f n = Num s"
  shows "(\<forall>i<n. \<exists>x. f i = Num x) \<and>
     \<bar>s - (\<Sum>i<n. valueOf (f i))\<bar> \<le>
       ((1 + u64) ^ n - 1) * (\<Sum>i<n. \<bar>valueOf (f i)\<bar>) + real n * (1 + u64) ^ n * eta64"
  using assms
proof (induction n arbitrary: s)
  case 0
  then show ?case by (simp add: jsum_def)
next
  case (Suc n)
  from jadd_Num [OF Suc.prems [unfolded jsum_Suc]] obtain s0 x where
    s0: "jsum f n = Num s0" and x: "f n = Num x" and r: "round64 (s0 + x) = Num s" by blast
  from Suc.IH [OF s0] have fin: "\<forall>i<n. \<exists>x. f i = Num x" and
    ih: "\<bar>s0 - (\<Sum>i<n. valueOf (f i))\<bar> \<le>
       ((1 + u64) ^ n - 1) * (\<Sum>i<n. \<bar>valueOf (f i)\<bar>) + real n * (1 + u64) ^ n * eta64"
    by simp_all
  let ?S = "\<Sum>i<n. valueOf (f i)" and ?T = "\<Sum>i<n. \<bar>valueOf (f i)\<bar>"
  let ?A = "(1 + u64) ^ n"
  let ?E = "(?A - 1) * ?T + real n * ?A * eta64"
  have u: "0 \<le> u64" and e: "0 \<le> eta64" using u64_bounds eta64_bounds by simp_all
  have A: "1 \<le> ?A" using u by (intro one_le_power) simp
  have T: "0 \<le> ?T" by (intro sum_nonneg) simp
  have d1: "\<bar>s - (s0 + x)\<bar> \<le> u64 * \<bar>s0 + x\<bar> + eta64" using r by (rule round64_error)
  have "\<bar>?S\<bar> \<le> ?T" by (rule sum_abs)
  then have m: "\<bar>s0 + x\<bar> \<le> ?E + ?T + \<bar>x\<bar>" using ih by linarith
  from sum_step_bound [OF u e A T _ d1 m ih refl]
  have "\<bar>s - (s0 + x)\<bar> + \<bar>s0 - ?S\<bar> \<le>
      ((1 + u64) * ?A - 1) * (?T + \<bar>x\<bar>) + (real n + 1) * ((1 + u64) * ?A) * eta64"
    by simp
  moreover have "\<bar>s - (?S + x)\<bar> \<le> \<bar>s - (s0 + x)\<bar> + \<bar>s0 - ?S\<bar>" by linarith
  ultimately have "\<bar>s - (?S + x)\<bar> \<le>
      ((1 + u64) * ?A - 1) * (?T + \<bar>x\<bar>) + (real n + 1) * ((1 + u64) * ?A) * eta64"
    by linarith
  moreover have "(\<Sum>i<Suc n. valueOf (f i)) = ?S + x" by (simp add: x valueOf_def)
  moreover have "(\<Sum>i<Suc n. \<bar>valueOf (f i)\<bar>) = ?T + \<bar>x\<bar>" by (simp add: x valueOf_def)
  moreover have "(1 + u64) ^ Suc n = (1 + u64) * ?A" by simp
  moreover have "real (Suc n) = real n + 1" by simp
  ultimately have "\<bar>s - (\<Sum>i<Suc n. valueOf (f i))\<bar> \<le>
       ((1 + u64) ^ Suc n - 1) * (\<Sum>i<Suc n. \<bar>valueOf (f i)\<bar>)
       + real (Suc n) * (1 + u64) ^ Suc n * eta64"
    by (simp only:)
  moreover have "\<forall>i<Suc n. \<exists>x. f i = Num x" using fin x by (auto simp: less_Suc_eq)
  ultimately show ?case by blast
qed

lemma centre_bound:
  fixes u e A T Nr S dY dc de absY D NrabsC E :: real
  assumes u: "0 \<le> u" and e: "0 \<le> e" and A: "1 \<le> A" and T: "0 \<le> T" and Nr: "0 \<le> Nr"
    and h1: "S \<le> dY + Nr * dc + de"
    and h2: "dY \<le> E"
    and h3: "absY \<le> T + E"
    and h4: "Nr * dc \<le> u * absY + Nr * e"
    and h5: "de \<le> u * D + Nr * e"
    and h6: "D \<le> T + NrabsC"
    and h7: "NrabsC \<le> (1 + u) * absY + Nr * e"
    and E: "E = (A - 1) * T + Nr * A * e"
  shows "S \<le> ((1 + u) ^ 3 * A - 1) * T + 3 * Nr * ((1 + u) ^ 2 * A) * e"
proof -
  have "u * D \<le> u * (T + ((1 + u) * absY + Nr * e))"
    using h6 h7 u by (intro mult_left_mono) linarith+
  with h1 h2 h4 h5 have "S \<le> E + (u * absY + Nr * e) + (u * (T + ((1 + u) * absY + Nr * e)) + Nr * e)"
    by linarith
  also have "\<dots> = E + (u * (2 + u)) * absY + u * T + (2 + u) * Nr * e"
    by (simp add: algebra_simps)
  also have "\<dots> \<le> E + (u * (2 + u)) * (T + E) + u * T + (2 + u) * Nr * e"
  proof -
    have "(u * (2 + u)) * absY \<le> (u * (2 + u)) * (T + E)"
      using h3 u by (intro mult_left_mono) simp_all
    then show ?thesis by linarith
  qed
  finally have b: "S \<le> E + (u * (2 + u)) * (T + E) + u * T + (2 + u) * Nr * e" .
  have d: "((1 + u) ^ 3 * A - 1) * T + 3 * Nr * ((1 + u) ^ 2 * A) * e
        - (E + (u * (2 + u)) * (T + E) + u * T + (2 + u) * Nr * e)
      = T * (u * ((1 + u) ^ 2 * A - 1)) + Nr * e * (2 * (1 + u) ^ 2 * (A - 1) + 3 * u + 2 * u ^ 2)"
    by (simp add: E algebra_simps power2_eq_square power3_eq_cube)
  have "1 * 1 \<le> (1 + u) ^ 2 * A" using u A by (intro mult_mono one_le_power) simp_all
  then have "0 \<le> T * (u * ((1 + u) ^ 2 * A - 1))" using T u by simp
  moreover have "0 \<le> Nr * e * (2 * (1 + u) ^ 2 * (A - 1) + 3 * u + 2 * u ^ 2)"
    using Nr e u A by (intro mult_nonneg_nonneg add_nonneg_nonneg) simp_all
  ultimately have "E + (u * (2 + u)) * (T + E) + u * T + (2 + u) * Nr * e
      \<le> ((1 + u) ^ 3 * A - 1) * T + 3 * Nr * ((1 + u) ^ 2 * A) * e"
    using d by linarith
  with b show ?thesis by linarith
qed

lemma recentred_sum_bound:
  fixes X pv :: "nat \<Rightarrow> real"
  assumes N: "0 < N"
    and s: "jsum f N = Num Y" and f: "\<And>i. i < N \<Longrightarrow> f i = Num (X i)"
    and c: "round64 (Y / real N) = Num c"
    and p: "\<And>i. i < N \<Longrightarrow> round64 (X i - c) = Num (pv i)"
  shows "\<bar>\<Sum>i<N. pv i\<bar> \<le>
     ((1 + u64) ^ (N + 3) - 1) * (\<Sum>i<N. \<bar>X i\<bar>) + 3 * real N * (1 + u64) ^ (N + 2) * eta64"
proof -
  let ?T = "\<Sum>i<N. \<bar>X i\<bar>" and ?SX = "\<Sum>i<N. X i"
  let ?A = "(1 + u64) ^ N"
  let ?E = "(?A - 1) * ?T + real N * ?A * eta64"
  let ?D = "\<Sum>i<N. \<bar>X i - c\<bar>"
  let ?de = "\<Sum>i<N. \<bar>pv i - (X i - c)\<bar>"
  have u: "0 \<le> u64" and e: "0 \<le> eta64" using u64_bounds eta64_bounds by simp_all
  have A: "1 \<le> ?A" using u by (intro one_le_power) simp
  have T: "0 \<le> ?T" by (intro sum_nonneg) simp
  have Nr: "0 \<le> real N" "0 < real N" using N by simp_all
  have vX: "(\<Sum>i<N. valueOf (f i)) = ?SX" "(\<Sum>i<N. \<bar>valueOf (f i)\<bar>) = ?T"
    by (simp_all add: f valueOf_def)
  from jsum_error [OF s] have h2: "\<bar>Y - ?SX\<bar> \<le> ?E" by (simp add: vX)
  have "\<bar>?SX\<bar> \<le> ?T" by (rule sum_abs)
  with h2 have h3: "\<bar>Y\<bar> \<le> ?T + ?E" by linarith
  have dc: "\<bar>c - Y / real N\<bar> \<le> u64 * \<bar>Y / real N\<bar> + eta64" using c by (rule round64_error)
  have NY: "real N * \<bar>Y / real N\<bar> = \<bar>Y\<bar>" using Nr by (simp add: abs_divide)
  have h4: "real N * \<bar>c - Y / real N\<bar> \<le> u64 * \<bar>Y\<bar> + real N * eta64"
  proof -
    have "real N * \<bar>c - Y / real N\<bar> \<le> real N * (u64 * \<bar>Y / real N\<bar> + eta64)"
      using dc Nr(1) by (rule mult_left_mono)
    also have "\<dots> = u64 * (real N * \<bar>Y / real N\<bar>) + real N * eta64" by (simp add: algebra_simps)
    finally show ?thesis by (simp only: NY)
  qed
  have h5: "?de \<le> u64 * ?D + real N * eta64"
  proof -
    have "?de \<le> (\<Sum>i<N. u64 * \<bar>X i - c\<bar> + eta64)"
      by (intro sum_mono round64_error p) simp
    also have "\<dots> = u64 * ?D + real N * eta64"
      by (simp add: sum.distrib sum_distrib_left)
    finally show ?thesis .
  qed
  have h6: "?D \<le> ?T + real N * \<bar>c\<bar>"
  proof -
    have "?D \<le> (\<Sum>i<N. \<bar>X i\<bar> + \<bar>c\<bar>)" by (intro sum_mono) simp
    also have "\<dots> = ?T + real N * \<bar>c\<bar>" by (simp add: sum.distrib)
    finally show ?thesis .
  qed
  have h7: "real N * \<bar>c\<bar> \<le> (1 + u64) * \<bar>Y\<bar> + real N * eta64"
  proof -
    have "\<bar>c\<bar> \<le> \<bar>Y / real N\<bar> + \<bar>c - Y / real N\<bar>" by linarith
    then have "real N * \<bar>c\<bar> \<le> real N * (\<bar>Y / real N\<bar> + \<bar>c - Y / real N\<bar>)"
      using Nr(1) by (rule mult_left_mono)
    also have "\<dots> = \<bar>Y\<bar> + real N * \<bar>c - Y / real N\<bar>" by (simp only: distrib_left NY)
    finally have "real N * \<bar>c\<bar> \<le> \<bar>Y\<bar> + real N * \<bar>c - Y / real N\<bar>" .
    moreover have "(1 + u64) * \<bar>Y\<bar> = \<bar>Y\<bar> + u64 * \<bar>Y\<bar>" by (simp add: algebra_simps)
    ultimately show ?thesis using h4 by linarith
  qed
  have h1: "\<bar>\<Sum>i<N. pv i\<bar> \<le> \<bar>Y - ?SX\<bar> + real N * \<bar>c - Y / real N\<bar> + ?de"
  proof -
    define a where "a = (\<Sum>i<N. pv i - (X i - c))"
    define b where "b = ?SX - Y"
    define z where "z = real N * (Y / real N - c)"
    have "real N * (Y / real N) = Y" using N by simp
    then have "?SX - real N * c = b + z" by (simp add: b_def z_def right_diff_distrib)
    moreover have "(\<Sum>i<N. pv i) = a + (?SX - real N * c)"
      by (simp add: a_def sum.distrib sum_subtractf)
    ultimately have "(\<Sum>i<N. pv i) = a + (b + z)" by simp
    then have "\<bar>\<Sum>i<N. pv i\<bar> \<le> \<bar>a\<bar> + \<bar>b\<bar> + \<bar>z\<bar>" by linarith
    moreover have "\<bar>a\<bar> \<le> ?de" unfolding a_def by (rule sum_abs)
    moreover have "\<bar>z\<bar> = real N * \<bar>c - Y / real N\<bar>"
      using Nr(1) by (simp add: z_def abs_mult abs_minus_commute)
    moreover have "\<bar>b\<bar> = \<bar>Y - ?SX\<bar>" by (simp add: b_def abs_minus_commute)
    ultimately show ?thesis by linarith
  qed
  from centre_bound [OF u e A T Nr(1) h1 h2 h3 h4 h5 h6 h7 refl]
  have "\<bar>\<Sum>i<N. pv i\<bar> \<le> ((1 + u64) ^ 3 * ?A - 1) * ?T + 3 * real N * ((1 + u64) ^ 2 * ?A) * eta64" .
  moreover have "(1 + u64) ^ 3 * ?A = (1 + u64) ^ (N + 3)" "(1 + u64) ^ 2 * ?A = (1 + u64) ^ (N + 2)"
    by (simp_all only: power_add mult.commute)
  ultimately show ?thesis by (simp only:)
qed

subsection \<open>One step\<close>

lemma isFinite_iff: "isFinite a \<longleftrightarrow> (\<exists>r. a = Num r)"
  by (cases a) (simp_all add: isFinite_def)

lemma shaped_ex:
  assumes "shaped N dofs pos"
  shows "\<exists>P. pos = jmat N dofs P"
proof
  let ?P = "\<lambda>i d. case pos ! i of Some row \<Rightarrow> row ! d | None \<Rightarrow> NaN"
  show "pos = jmat N dofs ?P"
    unfolding jmat_def
  proof (rule nth_equalityI)
    show "length pos = length (map (\<lambda>i. Some (map (?P i) [0..<dofs])) [0..<N])"
      using assms by (simp add: shaped_def)
  next
    fix i assume "i < length pos"
    with assms have i: "i < N" and "case pos ! i of Some row \<Rightarrow> length row = dofs | None \<Rightarrow> False"
      by (simp_all add: shaped_def list_all_length)
    then obtain row where r: "pos ! i = Some row" and l: "length row = dofs"
      by (cases "pos ! i") simp_all
    have "row = map (\<lambda>d. row ! d) [0..<dofs]" using l by (auto intro!: nth_equalityI)
    with r i show "pos ! i = map (\<lambda>i. Some (map (?P i) [0..<dofs])) [0..<N] ! i" by simp
  qed
qed

lemma shaped_jmat: "shaped N dofs (jmat N dofs P)"
  by (simp add: shaped_def jmat_def list_all_length)

lemma coordAt_jmat: "i < N \<Longrightarrow> d < dofs \<Longrightarrow> coordAt (jmat N dofs P) i d = P i d"
  by (simp add: coordAt_def jmat_get row_get_map)

lemma finMat_jmat: "finMat N dofs (jmat N dofs R) \<longleftrightarrow> (\<forall>i<N. \<forall>d<dofs. isFinite (R i d))"
  by (simp add: finMat_def jmat_def list_all_length)

text \<open>
  C5, amended. For every layout with at least one node whose position array has a row
  of \<open>dof\<close> numbers for every node and whose \<open>ymean\<close> buffer has \<open>dof\<close> slots, \<open>step\<close>
  returns without throwing; afterwards \<open>ymean[d]\<close> is the running sum, in doubles, of
  the numbers \<open>position[i][d] + velocity[i * dof + d]\<close>, and every coordinate is that
  number minus the quotient \<open>ymean[d] / numberOfNodes\<close>, each operation rounded. The
  mean of the new positions is therefore zero only up to rounding: when every coordinate
  after the step is a finite double, the exact sum over the nodes of the new coordinates
  on an axis, which is \<open>numberOfNodes\<close> times their mean, is in absolute value at most
  \<open>((1 + u64) ^ (N + 3) - 1)\<close> times the sum of the absolute values of the numbers
  \<open>position[i][d] + velocity[i * dof + d]\<close>, plus \<open>3 * N * (1 + u64) ^ (N + 2) * eta64\<close>.
  When a coordinate is NaN or infinite after the step, nothing is claimed of the mean.
\<close>

theorem step_recentres_up_to_rounding:
  assumes N: "0 < layout_numberOfNodes l"
    and sh: "shaped (layout_numberOfNodes l) (dof l) (position l)"
    and ym: "length (ymean l) = dof l"
  shows "\<exists>l'. step g l = (None, l') \<and>
     layout_numberOfNodes l' = layout_numberOfNodes l \<and> dof l' = dof l \<and>
     shaped (layout_numberOfNodes l) (dof l) (position l') \<and>
     (\<forall>d<dof l. F64_get (ymean l') d = jsum (\<lambda>i. moved l l' i d) (layout_numberOfNodes l)) \<and>
     (\<forall>i<layout_numberOfNodes l. \<forall>d<dof l.
        coordAt (position l') i d =
          jsub (moved l l' i d)
            (jdiv (F64_get (ymean l') d) (Num (real (layout_numberOfNodes l))))) \<and>
     (finMat (layout_numberOfNodes l) (dof l) (position l') \<longrightarrow>
        (\<forall>d<dof l.
           \<bar>axisTotal l' d\<bar> \<le>
             ((1 + u64) ^ (layout_numberOfNodes l + 3) - 1) *
               (\<Sum>i<layout_numberOfNodes l. \<bar>valueOf (moved l l' i d)\<bar>) +
             3 * real (layout_numberOfNodes l) * (1 + u64) ^ (layout_numberOfNodes l + 2) * eta64))"
proof -
  define N where "N = layout_numberOfNodes l"
  define dofs where "dofs = dof l"
  from sh obtain P where P: "position l = jmat N dofs P"
    unfolding N_def dofs_def using shaped_ex by blast
  have P0: "position (anneal l) = jmat (layout_numberOfNodes (anneal l)) (dof (anneal l)) P"
    using P by (simp add: anneal_frame N_def dofs_def)
  from calculateAcceleration_frame [OF P0] obtain l1 where
    ca: "calculateAcceleration g (anneal l) = (None, l1)" and
    fr: "position l1 = jmat N dofs P" "layout_numberOfNodes l1 = N" "dof l1 = dofs"
      "length (ymean l1) = dofs"
    using P ym by (auto simp: anneal_frame N_def dofs_def)
  let ?q = "\<lambda>a d. jadd (P a d) (F64_get (velocity l1) (a * dofs + d))"
  let ?Y = "\<lambda>d. jsum (\<lambda>a. ?q a d) N"
  let ?R = "\<lambda>i d. jsub (?q i d) (jdiv (?Y d) (Num (real N)))"
  let ?l' = "l1\<lparr>position := jmat N dofs ?R, ymean := jvec dofs ?Y,
               currentStep := currentStep l1 + 1\<rparr>"
  have res: "step g l = (None, ?l')"
    by (rule step_result [OF ca fr(2) fr(3) fr(1) fr(4)])
  have mv: "moved l l'' i d = ?q i d" if "i < N" "d < dofs" "velocity l'' = velocity l1" for i d l''
    using that by (simp add: moved_def P coordAt_jmat dofs_def [symmetric])
  have sumq: "jsum (\<lambda>i. moved l l'' i d) N = ?Y d"
    if "d < dofs" "velocity l'' = velocity l1" for d l''
  proof -
    have "fold (\<lambda>i s. jadd s (moved l l'' i d)) [0..<N] (Num 0)
        = fold (\<lambda>i s. jadd s (?q i d)) [0..<N] (Num 0)"
      by (rule fold_cong) (simp_all add: mv that)
    then show ?thesis by (simp add: jsum_def)
  qed
  have c1: "F64_get (ymean ?l') d = jsum (\<lambda>i. moved l ?l' i d) N" if "d < dofs" for d
    using that by (simp add: jvec_get sumq)
  have c2: "coordAt (position ?l') i d =
      jsub (moved l ?l' i d) (jdiv (F64_get (ymean ?l') d) (Num (real N)))"
    if "i < N" "d < dofs" for i d
    using that by (simp add: coordAt_jmat jvec_get mv)
  have c3: "\<bar>axisTotal ?l' d\<bar> \<le>
      ((1 + u64) ^ (N + 3) - 1) * (\<Sum>i<N. \<bar>valueOf (moved l ?l' i d)\<bar>) +
      3 * real N * (1 + u64) ^ (N + 2) * eta64"
    if fin: "finMat N dofs (position ?l')" and d: "d < dofs" for d
  proof -
    have N0: "0 < N" using N by (simp add: N_def)
    from fin have finR: "\<And>i. i < N \<Longrightarrow> isFinite (?R i d)"
      using d by (simp add: finMat_jmat)
    from finR [OF N0] obtain r0 where "?R 0 d = Num r0" by (auto simp: isFinite_iff)
    from jsub_Num [OF this] obtain c where c: "jdiv (?Y d) (Num (real N)) = Num c" by blast
    from jdiv_Num [OF c] N0 obtain Y where Y: "?Y d = Num Y" and rc: "round64 (Y / real N) = Num c"
      by auto
    have q: "?q i d = Num (valueOf (?q i d)) \<and>
        round64 (valueOf (?q i d) - c) = Num (valueOf (?R i d))" if "i < N" for i
    proof -
      from finR [OF that] obtain r where r: "?R i d = Num r" by (auto simp: isFinite_iff)
      from jsub_Num [OF r] c obtain x where "?q i d = Num x" "round64 (x - c) = Num r" by auto
      with r show ?thesis by (simp add: valueOf_def)
    qed
    from recentred_sum_bound [where f = "\<lambda>i. ?q i d" and X = "\<lambda>i. valueOf (?q i d)"
        and pv = "\<lambda>i. valueOf (?R i d)", OF N0 Y _ rc] q
    have "\<bar>\<Sum>i<N. valueOf (?R i d)\<bar> \<le>
      ((1 + u64) ^ (N + 3) - 1) * (\<Sum>i<N. \<bar>valueOf (?q i d)\<bar>) +
      3 * real N * (1 + u64) ^ (N + 2) * eta64"
      by simp
    moreover have "axisTotal ?l' d = (\<Sum>i<N. valueOf (?R i d))"
      unfolding axisTotal_def using d by (simp add: fr coordAt_jmat)
    moreover have "(\<Sum>i<N. \<bar>valueOf (moved l ?l' i d)\<bar>) = (\<Sum>i<N. \<bar>valueOf (?q i d)\<bar>)"
      by (rule sum.cong) (simp_all add: mv d)
    ultimately show ?thesis by (simp only:)
  qed
  show ?thesis
    unfolding N_def [symmetric] dofs_def [symmetric]
  proof (intro exI [of _ ?l'] conjI allI impI)
    show "step g l = (None, ?l')" by (rule res)
    show "layout_numberOfNodes ?l' = N" by (simp add: fr)
    show "dof ?l' = dofs" by (simp add: fr)
    show "shaped N dofs (position ?l')" by (simp add: shaped_jmat)
  next
    fix d assume "d < dofs"
    then show "F64_get (ymean ?l') d = jsum (\<lambda>i. moved l ?l' i d) N" by (rule c1)
  next
    fix i d assume "i < N" "d < dofs"
    then show "coordAt (position ?l') i d =
      jsub (moved l ?l' i d) (jdiv (F64_get (ymean ?l') d) (Num (real N)))" by (rule c2)
  next
    fix d assume "finMat N dofs (position ?l')" "d < dofs"
    then show "\<bar>axisTotal ?l' d\<bar> \<le>
      ((1 + u64) ^ (N + 3) - 1) * (\<Sum>i<N. \<bar>valueOf (moved l ?l' i d)\<bar>) +
      3 * real N * (1 + u64) ^ (N + 2) * eta64" by (rule c3)
  qed
qed

subsection \<open>A layout of one node\<close>

text \<open>The results of the operations on doubles of bounded magnitude are finite.\<close>

lemma round64_magn:
  assumes "\<bar>x\<bar> \<le> 2 ^ k" and "k \<le> 1000"
  shows "magn (k + 2) (round64 x)"
proof -
  have "(2::real) ^ k \<le> 2 ^ 1000" using assms(2) by (intro power_increasing) simp_all
  with assms(1) have "\<bar>x\<bar> \<le> 2 ^ 1000" by linarith
  from round64_finite [OF this] obtain y where y: "round64 x = Num y" by blast
  from round64_error [OF y] have "\<bar>y - x\<bar> \<le> u64 * \<bar>x\<bar> + eta64" .
  moreover have "u64 * \<bar>x\<bar> \<le> 1 * \<bar>x\<bar>" using u64_bounds by (intro mult_right_mono) simp_all
  ultimately have "\<bar>y\<bar> \<le> 2 * \<bar>x\<bar> + 1" using eta64_bounds by linarith
  also have "\<dots> \<le> 2 * 2 ^ k + 1" using assms(1) by simp
  also have "\<dots> \<le> 2 * 2 ^ k + 2 * 2 ^ k"
  proof -
    have "(1::real) \<le> 2 ^ k" by (rule one_le_power) simp
    then have "(1::real) \<le> 2 * 2 ^ k" by linarith
    then show ?thesis by linarith
  qed
  also have "\<dots> = (2::real) ^ (k + 2)" by simp
  finally show ?thesis using y by (simp add: magn_def)
qed

lemma magn_Num: "\<bar>x\<bar> \<le> 2 ^ k \<Longrightarrow> magn k (Num x)"
  by (simp add: magn_def)

lemma magn_mono: "magn k a \<Longrightarrow> k \<le> m \<Longrightarrow> magn m a"
proof -
  assume a: "magn k a" and km: "k \<le> m"
  have "(2::real) ^ k \<le> 2 ^ m" using km by (intro power_increasing) simp_all
  from a obtain x where "a = Num x" "\<bar>x\<bar> \<le> 2 ^ k" by (auto simp: magn_def)
  with \<open>(2::real) ^ k \<le> 2 ^ m\<close> have "a = Num x \<and> \<bar>x\<bar> \<le> 2 ^ m" by linarith
  then show ?thesis unfolding magn_def by blast
qed

lemma magn_jadd:
  assumes "magn k a" "magn k b" "k < 1000"
  shows "magn (k + 3) (jadd a b)"
proof -
  from assms obtain x y where a: "a = Num x" "\<bar>x\<bar> \<le> 2 ^ k" and b: "b = Num y" "\<bar>y\<bar> \<le> 2 ^ k"
    by (auto simp: magn_def)
  have "\<bar>x + y\<bar> \<le> 2 ^ (k + 1)" using a(2) b(2) by simp
  from round64_magn [OF this] assms(3) have "magn (k + 1 + 2) (round64 (x + y))" by simp
  moreover have "k + 1 + 2 = k + 3" by simp
  ultimately show ?thesis by (simp only: a b jadd.simps)
qed

lemma magn_jsub:
  assumes "magn k a" "magn k b" "k < 1000"
  shows "magn (k + 3) (jsub a b)"
proof -
  from assms(2) have "magn k (jneg b)" by (auto simp: magn_def)
  from magn_jadd [OF assms(1) this assms(3)] show ?thesis by (simp add: jsub_def)
qed

lemma magn_jmul:
  assumes "magn k a" "magn m b" "k + m \<le> 1000"
  shows "magn (k + m + 2) (jmul a b)"
proof -
  from assms obtain x y where a: "a = Num x" "\<bar>x\<bar> \<le> 2 ^ k" and b: "b = Num y" "\<bar>y\<bar> \<le> 2 ^ m"
    by (auto simp: magn_def)
  have "\<bar>x * y\<bar> \<le> 2 ^ k * 2 ^ m" unfolding abs_mult using a(2) b(2) by (intro mult_mono) simp_all
  then have "\<bar>x * y\<bar> \<le> 2 ^ (k + m)" by (simp add: power_add)
  from round64_magn [OF this assms(3)] show ?thesis by (simp add: a b)
qed

lemma magn_jdiv:
  assumes "magn k a" "1 \<le> n" "k \<le> 1000"
  shows "magn (k + 2) (jdiv a (Num n))"
proof -
  from assms obtain x where a: "a = Num x" "\<bar>x\<bar> \<le> 2 ^ k" by (auto simp: magn_def)
  have "\<bar>x / n\<bar> \<le> \<bar>x\<bar> / 1" unfolding abs_divide using assms(2) by (intro frac_le) simp_all
  with a(2) have "\<bar>x / n\<bar> \<le> 2 ^ k" by simp
  from round64_magn [OF this assms(3)] assms(2) show ?thesis by (simp add: a)
qed

lemma magn_isFinite: "magn k a \<Longrightarrow> isFinite a"
  by (auto simp: magn_def isFinite_def)

lemma jmul_NaN: "jmul a NaN = NaN"
  by (cases a) simp_all

lemma jadd_NaN: "jadd a NaN = NaN"
  by (cases a) simp_all

lemma finMat_coords:
  assumes "shaped N dofs pos" and "\<And>i d. i < N \<Longrightarrow> d < dofs \<Longrightarrow> isFinite (coordAt pos i d)"
  shows "finMat N dofs pos"
proof -
  from shaped_ex [OF assms(1)] obtain P where P: "pos = jmat N dofs P" by blast
  show ?thesis unfolding P finMat_jmat using assms(2) by (simp add: P coordAt_jmat)
qed

lemma jsum_1: "jsum f (Suc 0) = jadd (Num 0) (f 0)"
  by (simp add: jsum_def)

lemma recentre_single_finite:
  assumes p: "magn k p" and v: "magn k v" and k: "k \<le> 900"
  shows "isFinite (jsub (jadd p v) (jdiv (jadd (Num 0) (jadd p v)) (Num 1)))"
proof -
  from k have k1: "k < 1000" "k + 3 < 1000" "k + 3 + 3 \<le> 1000" "k + 3 + 3 + 2 < 1000" by simp_all
  have q: "magn (k + 3) (jadd p v)" by (rule magn_jadd [OF p v k1(1)])
  have z: "magn (k + 3) (Num 0)" by (simp add: magn_def)
  have s: "magn (k + 3 + 3) (jadd (Num 0) (jadd p v))" by (rule magn_jadd [OF z q k1(2)])
  have c: "magn (k + 3 + 3 + 2) (jdiv (jadd (Num 0) (jadd p v)) (Num 1))"
    by (rule magn_jdiv [OF s _ k1(3)]) simp
  have q': "magn (k + 3 + 3 + 2) (jadd p v)" using q by (rule magn_mono) simp
  show ?thesis by (rule magn_isFinite [OF magn_jsub [OF q' c k1(4)]])
qed

lemma lone_velocity:
  "velocity (snd (step (new_Graph False) lone_layout)) =
     [jmul (round64 1) (round64 (95 / 100)), jmul (round64 2) (round64 (95 / 100))]"
  by (simp add: step_def anneal_def lone_layout_def calculateAcceleration_def
      processNodeInteractions_def xtod_def zeroFill_def nodeInteraction_def
      processEdgeInteractions_def new_Graph_def new_Float64Array_def F64_get_def F64_set_def
      integrate_def recentre_def Array_get_def row_get_def row_set_def
      Let_def eval_nat_numeral round64_0 split: prod.splits option.splits)

lemma lone_velocity_magn:
  "magn 7 (jmul (round64 1) (round64 (95 / 100)))" "magn 7 (jmul (round64 2) (round64 (95 / 100)))"
proof -
  have a: "magn 3 (round64 1)" using round64_magn [of 1 1] by (simp add: eval_nat_numeral)
  have b: "magn 3 (round64 2)" using round64_magn [of 2 1] by (simp add: eval_nat_numeral)
  have c: "magn 2 (round64 (95 / 100))"
    using round64_magn [of "95 / 100" 0] by (simp add: eval_nat_numeral)
  show "magn 7 (jmul (round64 1) (round64 (95 / 100)))"
    using magn_jmul [OF a c] by (simp add: eval_nat_numeral)
  show "magn 7 (jmul (round64 2) (round64 (95 / 100)))"
    using magn_jmul [OF b c] by (simp add: eval_nat_numeral)
qed

theorem step_recentres_up_to_rounding_witness:
  "\<exists>l'. step (new_Graph False) lone_layout = (None, l') \<and> finMat 1 2 (position l') \<and>
     \<bar>axisTotal l' 0\<bar> \<le> ((1 + u64) ^ 4 - 1) * \<bar>valueOf (moved lone_layout l' 0 0)\<bar>
        + 3 * (1 + u64) ^ 3 * eta64 \<and>
     \<bar>axisTotal l' 1\<bar> \<le> ((1 + u64) ^ 4 - 1) * \<bar>valueOf (moved lone_layout l' 0 1)\<bar>
        + 3 * (1 + u64) ^ 3 * eta64"
proof -
  have n: "layout_numberOfNodes lone_layout = 1" "dof lone_layout = 2"
    by (simp_all add: lone_layout_def)
  have h1: "0 < layout_numberOfNodes lone_layout" by (simp add: n)
  have h2: "shaped (layout_numberOfNodes lone_layout) (dof lone_layout) (position lone_layout)"
    by (simp add: lone_layout_def shaped_def)
  have h3: "length (ymean lone_layout) = dof lone_layout"
    by (simp add: lone_layout_def new_Float64Array_def)
  from step_recentres_up_to_rounding [OF h1 h2 h3, of "new_Graph False"] obtain l' where
    s: "step (new_Graph False) lone_layout = (None, l')" and
    sh: "shaped 1 2 (position l')" and
    y: "\<And>d. d < 2 \<Longrightarrow> F64_get (ymean l') d = jsum (\<lambda>i. moved lone_layout l' i d) 1" and
    c: "\<And>d. d < 2 \<Longrightarrow> coordAt (position l') 0 d =
          jsub (moved lone_layout l' 0 d) (jdiv (F64_get (ymean l') d) (Num 1))" and
    b: "finMat 1 2 (position l') \<Longrightarrow> (\<forall>d<2. \<bar>axisTotal l' d\<bar> \<le>
          ((1 + u64) ^ (1 + 3) - 1) * (\<Sum>i<1. \<bar>valueOf (moved lone_layout l' i d)\<bar>) +
          3 * real 1 * (1 + u64) ^ (1 + 2) * eta64)"
    unfolding n by auto
  from s have "l' = snd (step (new_Graph False) lone_layout)" by simp
  then have v: "velocity l' = [jmul (round64 1) (round64 (95 / 100)),
      jmul (round64 2) (round64 (95 / 100))]" by (simp only: lone_velocity)
  have m0: "moved lone_layout l' 0 0 = jadd (Num 5) (jmul (round64 1) (round64 (95 / 100)))"
    and m1: "moved lone_layout l' 0 1 = jadd (Num 7) (jmul (round64 2) (round64 (95 / 100)))"
    by (simp_all add: moved_def v coordAt_def lone_layout_def Array_get_def row_get_def F64_get_def)
  have p: "magn 7 (Num 5)" "magn 7 (Num 7)" by (simp_all add: magn_def)
  have c0: "coordAt (position l') 0 0 =
      jsub (jadd (Num 5) (jmul (round64 1) (round64 (95 / 100))))
        (jdiv (jadd (Num 0) (jadd (Num 5) (jmul (round64 1) (round64 (95 / 100))))) (Num 1))"
    using c [of 0] y [of 0] by (simp add: jsum_1 m0)
  have c1: "coordAt (position l') 0 1 =
      jsub (jadd (Num 7) (jmul (round64 2) (round64 (95 / 100))))
        (jdiv (jadd (Num 0) (jadd (Num 7) (jmul (round64 2) (round64 (95 / 100))))) (Num 1))"
  proof -
    have m1': "moved lone_layout l' 0 (Suc 0) = jadd (Num 7) (jmul (round64 2) (round64 (95 / 100)))"
      using m1 by simp
    show ?thesis using c [of 1] y [of 1] by (simp add: jsum_1 m1')
  qed
  have f0: "isFinite (coordAt (position l') 0 0)"
    unfolding c0 by (rule recentre_single_finite [OF p(1) lone_velocity_magn(1)]) simp
  have f1: "isFinite (coordAt (position l') 0 1)"
    unfolding c1 by (rule recentre_single_finite [OF p(2) lone_velocity_magn(2)]) simp
  have f: "isFinite (coordAt (position l') 0 d)" if "d < 2" for d
  proof -
    from that have "d = 0 \<or> d = 1" by auto
    then show ?thesis using f0 f1 by auto
  qed
  have fin: "finMat 1 2 (position l')"
    using sh by (rule finMat_coords) (simp add: f)
  from b [OF fin] have "\<bar>axisTotal l' 0\<bar> \<le> ((1 + u64) ^ 4 - 1) * \<bar>valueOf (moved lone_layout l' 0 0)\<bar>
        + 3 * (1 + u64) ^ 3 * eta64"
    and "\<bar>axisTotal l' 1\<bar> \<le> ((1 + u64) ^ 4 - 1) * \<bar>valueOf (moved lone_layout l' 0 1)\<bar>
        + 3 * (1 + u64) ^ 3 * eta64"
    by (simp_all add: eval_nat_numeral)
  with s fin show ?thesis by blast
qed

subsection \<open>Two nodes at the origin\<close>

text \<open>Two nodes at the origin: the directions of the pair are NaN, and after one step
  so are the accelerations, the velocities, every coordinate and the mean.\<close>

lemma xtod_origin:
  "xtod 2 2 ([Num 0, Num 0, Num 0, Num 0],
             [Num 0, Num 0, Num 0, Num 0, Num 0, Num 0, Num 0, Num 0])
     [Some [Num 0, Num 0], Some [Num 0, Num 0]]
     = (None, ([Num 0, Num 0, Num 0, Num 0],
               [Num 0, Num 0, NaN, NaN, NaN, NaN, Num 0, Num 0]))"
  by (simp add: xtod_def xtod_j_def xtod_k_def L2_def L2_step_def Array_get_def row_get_def
      jsub_def F64_set_def F64_get_def upt2 eval_nat_numeral Let_def round64_0)

lemma pni_origin:
  "processNodeInteractions (pair_layout [Num 0, Num 0] [Num 0, Num 0]) =
     (None, (pair_layout [Num 0, Num 0] [Num 0, Num 0])
        \<lparr>distance := [Num 0, Num 0, Num 0, Num 0],
         direction := [Num 0, Num 0, NaN, NaN, NaN, NaN, Num 0, Num 0],
         ymean := [NaN, NaN], acceleration := [NaN, NaN, NaN, NaN]\<rparr>)"
proof -
  let ?l = "pair_layout [Num 0, Num 0] [Num 0, Num 0]"
  have x: "xtod (layout_numberOfNodes ?l) (dof ?l) (distance ?l, direction ?l) (position ?l)
      = (None, ([Num 0, Num 0, Num 0, Num 0],
               [Num 0, Num 0, NaN, NaN, NaN, NaN, Num 0, Num 0]))"
    using xtod_origin by (simp add: pair_layout_def new_Float64Array_def eval_nat_numeral)
  show ?thesis
    unfolding processNodeInteractions_def Let_def x
    by (simp add: pair_layout_def new_Float64Array_def zeroFill_def nodeInteraction_def
        F64_get_def F64_set_def Let_def eval_nat_numeral jmul_NaN jadd_NaN)
qed

lemma ca_origin:
  "calculateAcceleration (new_Graph False) (anneal (pair_layout [Num 0, Num 0] [Num 0, Num 0])) =
     (None, (pair_layout [Num 0, Num 0] [Num 0, Num 0])
        \<lparr>distance := [Num 0, Num 0, Num 0, Num 0],
         direction := [Num 0, Num 0, NaN, NaN, NaN, NaN, Num 0, Num 0],
         ymean := [NaN, NaN], acceleration := [NaN, NaN, NaN, NaN],
         velocity := [NaN, NaN, NaN, NaN]\<rparr>)"
proof -
  have a: "anneal (pair_layout [Num 0, Num 0] [Num 0, Num 0]) = pair_layout [Num 0, Num 0] [Num 0, Num 0]"
    by (simp add: anneal_def pair_layout_def)
  show ?thesis
    unfolding a calculateAcceleration_def pni_origin
    by (simp add: pair_layout_def processEdgeInteractions_def new_Graph_def
        F64_get_def F64_set_def Let_def eval_nat_numeral jmul_NaN jadd_NaN)
qed

lemma step_origin:
  "step (new_Graph False) (pair_layout [Num 0, Num 0] [Num 0, Num 0]) =
     (None, (pair_layout [Num 0, Num 0] [Num 0, Num 0])
        \<lparr>distance := [Num 0, Num 0, Num 0, Num 0],
         direction := [Num 0, Num 0, NaN, NaN, NaN, NaN, Num 0, Num 0],
         ymean := [NaN, NaN], acceleration := [NaN, NaN, NaN, NaN],
         velocity := [NaN, NaN, NaN, NaN],
         position := [Some [NaN, NaN], Some [NaN, NaN]], currentStep := 1\<rparr>)"
  unfolding step_def ca_origin
  by (simp add: pair_layout_def zeroFill_def integrate_def recentre_def Array_get_def
      row_get_def row_set_def F64_get_def F64_set_def jsub_def Let_def eval_nat_numeral
      jmul_NaN jadd_NaN)

theorem step_coincident_mean_NaN_counterexample:
  "fst (step (new_Graph False) (pair_layout [Num 0, Num 0] [Num 0, Num 0])) = None \<and>
   position (snd (step (new_Graph False) (pair_layout [Num 0, Num 0] [Num 0, Num 0])))
     = [Some [NaN, NaN], Some [NaN, NaN]] \<and>
   axisMean (snd (step (new_Graph False) (pair_layout [Num 0, Num 0] [Num 0, Num 0]))) 0 = NaN \<and>
   axisMean (snd (step (new_Graph False) (pair_layout [Num 0, Num 0] [Num 0, Num 0]))) 1 = NaN"
  unfolding step_origin
  by (simp add: pair_layout_def axisMean_def axisSum_def jsum_def coordAt_def Array_get_def row_get_def
      eval_nat_numeral jadd_NaN)

end
